theory Spec2Isabelle
  imports Main "HOL-Library.AList"
begin

section \<open>The P\&ID scanner: data model\<close>

text \<open>
  The embedding follows \<^verbatim>\<open>src/pid_scanner.py\<close> (class \<^verbatim>\<open>PIDScanner\<close>).
  Python dictionaries are association lists in insertion order; an assignment
  \<^verbatim>\<open>d[k] = v\<close> is \<^const>\<open>AList.update\<close> (an existing key keeps its place, a
  new key goes to the end). A key that a JSON configuration may lack is an \<open>option\<close>
  field. Strings are lists of characters with codes below 256.

  The methods that read the configuration and the stored record (\<^verbatim>\<open>scan_pdf\<close>, the
  two exports, \<^verbatim>\<open>filter_results\<close>) are modelled on the scanner as a value. The two
  methods that change the configuration in place, \<^verbatim>\<open>update_config\<close> and
  \<^verbatim>\<open>add_custom_pattern\<close>, are modelled on the scanner with a store of objects, where
  the sharing of a dictionary or a list between the configuration and a record can
  be expressed.

  Not modelled: what \<^verbatim>\<open>print\<close> writes; the configuration key \<^verbatim>\<open>output_format\<close>
  and any other key that \<^verbatim>\<open>pid_scanner.py\<close> never reads; \<^verbatim>\<open>get_summary\<close>; the
  default values of the arguments of \<^verbatim>\<open>filter_results\<close> (the arguments are always
  given). A match of \<^verbatim>\<open>re.findall\<close> is a string, as it is for a pattern with at most
  one group.
\<close>

datatype error = FileNotFoundError | ValueError | KeyError | RegexError | OSError

text \<open>The outcome of a call into a library or of a dictionary lookup: it raises, or it returns.\<close>

datatype 'a outcome = Raises | Returns 'a

fun obind :: "'a outcome \<Rightarrow> ('a \<Rightarrow> 'b outcome) \<Rightarrow> 'b outcome" where
  "obind Raises f = Raises"
| "obind (Returns x) f = f x"

text \<open>\<^verbatim>\<open>d[key]\<close>: a missing key raises.\<close>

fun lookup :: "'a option \<Rightarrow> 'a outcome" where
  "lookup None = Raises"
| "lookup (Some v) = Returns v"

record category_settings =
  enabled :: "bool option"
  patterns :: "string list option"

record preprocessing_settings =
  denoise :: "bool option"
  enhance_contrast :: "bool option"
  sharpen :: "bool option"

record ocr_settings_t =
  dpi :: "int option"
  preprocessing :: "preprocessing_settings option"
  tesseract_config :: "string option"

record config_t =
  extraction_settings :: "(string \<times> category_settings) list option"
  ocr_settings :: "ocr_settings_t option"

record extraction_result =
  count :: int
  items :: "string list"

record scan_record =
  pdf_path :: string
  extraction_results :: "(string \<times> extraction_result) list"
  total_pages :: int
  raw_text_preview :: string

text \<open>
  The scanner object: \<^verbatim>\<open>self.config\<close> and \<^verbatim>\<open>self.extracted_data\<close>. The empty
  dictionary \<^verbatim>\<open>{}\<close> that \<^verbatim>\<open>__init__\<close> stores is \<open>None\<close>; the only other value
  ever assigned is the four-key dictionary built by \<^verbatim>\<open>scan_pdf\<close>.
\<close>

record scanner =
  config :: config_t
  extracted_data :: "scan_record option"

text \<open>
  What the scanner does to its surroundings: the calls it makes to the rasterizer
  \<^verbatim>\<open>convert_from_path\<close> (path and dpi of each call, in order) and the files it writes.
\<close>

record world =
  rasterizer_calls :: "(string \<times> int) list"
  files :: "(string \<times> string) list"

text \<open>
  The libraries the scanner calls, as parameters: \<^verbatim>\<open>os.path.exists\<close>; pdfplumber
  (opening a document raises or gives its pages, and \<^verbatim>\<open>extract_text\<close> on a page raises
  or returns \<^verbatim>\<open>None\<close> or a string); pdf2image; numpy's shape test
  \<^verbatim>\<open>len(img_array.shape) == 3\<close>; the three OpenCV steps; pytesseract;
  \<^verbatim>\<open>re.findall\<close> with \<^verbatim>\<open>re.IGNORECASE\<close> (pattern first, then text; an invalid
  pattern raises); opening a file for writing; and the two serialisers.
\<close>

record 'img backend =
  path_exists :: "string \<Rightarrow> bool"
  pdfplumber_pages :: "string \<Rightarrow> string option outcome list outcome"
  convert_from_path :: "string \<Rightarrow> int \<Rightarrow> 'img list outcome"
  has_colour_channels :: "'img \<Rightarrow> bool"
  medianBlur :: "'img \<Rightarrow> 'img outcome"
  clahe_contrast :: "'img \<Rightarrow> 'img outcome"
  filter2D_sharpen :: "'img \<Rightarrow> 'img outcome"
  image_to_string :: "'img \<Rightarrow> string \<Rightarrow> string outcome"
  re_findall :: "string \<Rightarrow> string \<Rightarrow> string list outcome"
  can_open_for_write :: "string \<Rightarrow> bool"
  to_csv :: "(string \<times> string \<times> string) list \<Rightarrow> string"
  json_dump :: "scan_record \<Rightarrow> string"

section \<open>String helpers of Python\<close>

text \<open>
  \<^verbatim>\<open>str.isspace\<close> on one character, for codes below 256: tab to carriage return,
  the four separators 28 to 31, space, NEL (133) and the no-break space (160).
\<close>

definition isspace :: "char \<Rightarrow> bool" where
  "isspace c =
     (let n = (of_char c :: nat)
      in (9 \<le> n \<and> n \<le> 13) \<or> (28 \<le> n \<and> n \<le> 32) \<or> n = 133 \<or> n = 160)"

text \<open>\<^verbatim>\<open>s.strip()\<close>: leading and trailing whitespace removed, the inside kept.\<close>

definition strip :: "string \<Rightarrow> string" where
  "strip s = rev (dropWhile isspace (rev (dropWhile isspace s)))"

text \<open>\<^verbatim>\<open>sep.join(xs)\<close>.\<close>

fun join :: "string \<Rightarrow> string list \<Rightarrow> string" where
  "join sep [] = []"
| "join sep [x] = x"
| "join sep (x # y # ys) = x @ sep @ join sep (y # ys)"

text \<open>
  \<^verbatim>\<open>list(set(matches))\<close>: the distinct elements, in an order Python does not specify.
  Within one run of the program the order is a function of the list, which is all
  that is used below; the model has to pick one order, and no result depends on
  which.
\<close>

definition list_of_set :: "string list \<Rightarrow> string list" where
  "list_of_set matches = remdups matches"

section \<open>Text acquisition\<close>

text \<open>
  \<^verbatim>\<open>preprocess_image\<close>: the three steps in the order denoise, contrast, sharpen, each
  behind its configuration flag. A missing key or a failing OpenCV call raises.
\<close>

definition preprocess_image :: "'img backend \<Rightarrow> config_t \<Rightarrow> 'img \<Rightarrow> 'img outcome" where
  "preprocess_image B cfg img =
     obind (lookup (ocr_settings cfg)) (\<lambda>ocr.
     obind (lookup (preprocessing ocr)) (\<lambda>pp.
     obind (lookup (denoise pp)) (\<lambda>dn.
     obind (if dn then medianBlur B img else Returns img) (\<lambda>img1.
     obind (lookup (enhance_contrast pp)) (\<lambda>ec.
     obind (if ec then clahe_contrast B img1 else Returns img1) (\<lambda>img2.
     obind (lookup (sharpen pp)) (\<lambda>sh.
     if sh then filter2D_sharpen B img2 else Returns img2)))))))"

text \<open>The loop of method 1 over \<^verbatim>\<open>pdf.pages\<close>; an exception leaves the loop with what
  was appended so far (the \<^verbatim>\<open>except\<close> clause only prints).\<close>

fun plumber_loop :: "string option outcome list \<Rightarrow> string list \<Rightarrow> string list" where
  "plumber_loop [] text_content = text_content"
| "plumber_loop (Raises # pages) text_content = text_content"
| "plumber_loop (Returns None # pages) text_content = plumber_loop pages text_content"
| "plumber_loop (Returns (Some text) # pages) text_content =
     plumber_loop pages (if text \<noteq> [] then text_content @ [text] else text_content)"

definition plumber_extraction :: "'img backend \<Rightarrow> string \<Rightarrow> string list" where
  "plumber_extraction B path =
     (case pdfplumber_pages B path of
        Raises \<Rightarrow> []
      | Returns pages \<Rightarrow> plumber_loop pages [])"

text \<open>The body of the loop of method 2 for one page image, up to the OCR call.\<close>

definition ocr_page :: "'img backend \<Rightarrow> config_t \<Rightarrow> 'img \<Rightarrow> string outcome" where
  "ocr_page B cfg img =
     obind (if has_colour_channels B img then preprocess_image B cfg img else Returns img)
       (\<lambda>img_array.
     obind (lookup (ocr_settings cfg)) (\<lambda>ocr.
     obind (lookup (tesseract_config ocr)) (\<lambda>ocr_config.
     image_to_string B img_array ocr_config)))"

fun ocr_loop :: "'img backend \<Rightarrow> config_t \<Rightarrow> 'img list \<Rightarrow> string list \<Rightarrow> string list" where
  "ocr_loop B cfg [] text_content = text_content"
| "ocr_loop B cfg (img # imgs) text_content =
     (case ocr_page B cfg img of
        Raises \<Rightarrow> text_content
      | Returns text \<Rightarrow>
          ocr_loop B cfg imgs
            (if strip text \<noteq> [] then text_content @ [text] else text_content))"

text \<open>
  Method 2, entered with an empty \<^verbatim>\<open>text_content\<close>: the dpi is looked up first (a
  missing key is caught like any other exception), then the rasterizer is called.
\<close>

definition ocr_extraction ::
  "'img backend \<Rightarrow> config_t \<Rightarrow> world \<Rightarrow> string \<Rightarrow> string list \<times> world" where
  "ocr_extraction B cfg w path =
     (case obind (lookup (ocr_settings cfg)) (\<lambda>ocr. lookup (dpi ocr)) of
        Raises \<Rightarrow> ([], w)
      | Returns d \<Rightarrow>
          (let w' = w\<lparr>rasterizer_calls := rasterizer_calls w @ [(path, d)]\<rparr>
           in case convert_from_path B path d of
                Raises \<Rightarrow> ([], w')
              | Returns imgs \<Rightarrow> (ocr_loop B cfg imgs [], w')))"

definition extract_text_from_pdf ::
  "'img backend \<Rightarrow> config_t \<Rightarrow> world \<Rightarrow> string \<Rightarrow> string list \<times> world" where
  "extract_text_from_pdf B cfg w path =
     (let text_content = plumber_extraction B path
      in if text_content \<noteq> [] \<and> 50 < length (strip (join '' '' text_content))
         then (text_content, w)
         else ocr_extraction B cfg w path)"

section \<open>Pattern extraction\<close>

fun findall_loop ::
  "'img backend \<Rightarrow> string \<Rightarrow> string list \<Rightarrow> string list \<Rightarrow> string list outcome" where
  "findall_loop B text [] matches = Returns matches"
| "findall_loop B text (pattern # rest) matches =
     (case re_findall B pattern text of
        Raises \<Rightarrow> Raises
      | Returns found \<Rightarrow> findall_loop B text rest (matches @ found))"

definition extract_patterns ::
  "'img backend \<Rightarrow> string \<Rightarrow> string list \<Rightarrow> string list outcome" where
  "extract_patterns B text pats =
     (case findall_loop B text pats [] of
        Raises \<Rightarrow> Raises
      | Returns matches \<Rightarrow> Returns (list_of_set matches))"

section \<open>The scan orchestrator\<close>

text \<open>\<^verbatim>\<open>__init__\<close>, given the loaded configuration: no record is stored yet.\<close>

definition init_scanner :: "config_t \<Rightarrow> scanner" where
  "init_scanner cfg = \<lparr>config = cfg, extracted_data = None\<rparr>"

text \<open>\<^verbatim>\<open>settings.get('enabled', True)\<close> and \<^verbatim>\<open>settings.get('patterns', [])\<close>.\<close>

definition get_enabled :: "category_settings \<Rightarrow> bool" where
  "get_enabled settings = (case enabled settings of None \<Rightarrow> True | Some b \<Rightarrow> b)"

definition get_patterns :: "category_settings \<Rightarrow> string list" where
  "get_patterns settings = (case patterns settings of None \<Rightarrow> [] | Some ps \<Rightarrow> ps)"

text \<open>The loop over \<^verbatim>\<open>extraction_settings.items()\<close>; an error of \<^verbatim>\<open>re.findall\<close>
  is not caught anywhere and ends the scan.\<close>

fun scan_loop ::
  "'img backend \<Rightarrow> string \<Rightarrow> (string \<times> category_settings) list \<Rightarrow>
   (string \<times> extraction_result) list \<Rightarrow> error + (string \<times> extraction_result) list" where
  "scan_loop B text [] results = Inr results"
| "scan_loop B text ((category, settings) # rest) results =
     (if get_enabled settings then
        (case extract_patterns B text (get_patterns settings) of
           Raises \<Rightarrow> Inl RegexError
         | Returns matches \<Rightarrow>
             scan_loop B text rest
               (AList.update category \<lparr>count = int (length matches), items = matches\<rparr> results))
      else scan_loop B text rest results)"

definition text_preview :: "string \<Rightarrow> string" where
  "text_preview combined_text =
     (if 500 < length combined_text then take 500 combined_text @ ''...'' else combined_text)"

definition scan_pdf ::
  "'img backend \<Rightarrow> scanner \<Rightarrow> world \<Rightarrow> string \<Rightarrow> (error + scan_record) \<times> scanner \<times> world" where
  "scan_pdf B s w path =
     (if \<not> path_exists B path then (Inl FileNotFoundError, s, w)
      else
        (let (text_content, w') = extract_text_from_pdf B (config s) w path;
             combined_text = join '' '' text_content
         in case extraction_settings (config s) of
              None \<Rightarrow> (Inl KeyError, s, w')
            | Some es \<Rightarrow>
                (case scan_loop B combined_text es [] of
                   Inl e \<Rightarrow> (Inl e, s, w')
                 | Inr results \<Rightarrow>
                     (let r = \<lparr>pdf_path = path,
                               extraction_results = results,
                               total_pages = int (length text_content),
                               raw_text_preview = text_preview combined_text\<rparr>
                      in (Inr r, s\<lparr>extracted_data := Some r\<rparr>, w')))))"

subsection \<open>Export\<close>

definition csv_rows :: "scan_record \<Rightarrow> (string \<times> string \<times> string) list" where
  "csv_rows r =
     concat (map (\<lambda>(category, d). map (\<lambda>item. (category, item, pdf_path r)) (items d))
       (extraction_results r))"

definition export_to_csv ::
  "'img backend \<Rightarrow> scanner \<Rightarrow> world \<Rightarrow> string \<Rightarrow> (error + unit) \<times> world" where
  "export_to_csv B s w output_path =
     (case extracted_data s of
        None \<Rightarrow> (Inl ValueError, w)
      | Some r \<Rightarrow>
          if can_open_for_write B output_path
          then (Inr (), w\<lparr>files := AList.update output_path (to_csv B (csv_rows r)) (files w)\<rparr>)
          else (Inl OSError, w))"

definition export_to_json ::
  "'img backend \<Rightarrow> scanner \<Rightarrow> world \<Rightarrow> string \<Rightarrow> (error + unit) \<times> world" where
  "export_to_json B s w output_path =
     (case extracted_data s of
        None \<Rightarrow> (Inl ValueError, w)
      | Some r \<Rightarrow>
          if can_open_for_write B output_path
          then (Inr (), w\<lparr>files := AList.update output_path (json_dump B r) (files w)\<rparr>)
          else (Inl OSError, w))"

subsection \<open>Filtering\<close>

text \<open>The truth value Python gives the \<^verbatim>\<open>category\<close> argument: \<^verbatim>\<open>None\<close> and the
  empty string are false.\<close>

definition truthy :: "string option \<Rightarrow> bool" where
  "truthy category = (case category of None \<Rightarrow> False | Some c \<Rightarrow> c \<noteq> [])"

fun filter_loop ::
  "string option \<Rightarrow> int \<Rightarrow> (string \<times> extraction_result) list \<Rightarrow>
   (string \<times> extraction_result) list \<Rightarrow> (string \<times> extraction_result) list" where
  "filter_loop category min_count [] filtered = filtered"
| "filter_loop category min_count ((cat, d) # rest) filtered =
     (if truthy category \<and> Some cat \<noteq> category then filter_loop category min_count rest filtered
      else if min_count \<le> count d
           then filter_loop category min_count rest (AList.update cat d filtered)
           else filter_loop category min_count rest filtered)"

definition filter_results ::
  "scanner \<Rightarrow> string option \<Rightarrow> int \<Rightarrow> (string \<times> extraction_result) list" where
  "filter_results s category min_count =
     (case extracted_data s of
        None \<Rightarrow> []
      | Some r \<Rightarrow> filter_loop category min_count (extraction_results r) [])"

section \<open>Dictionaries and lists as objects: the scanner with a store\<close>

text \<open>
  A Python dictionary or list is an object: a variable, an attribute, a dictionary
  value or a list element holds a reference to it, and a change made through one
  reference is seen through every other. \<^verbatim>\<open>scan_pdf\<close> returns the very dictionary it
  stores in \<^verbatim>\<open>self.extracted_data\<close>, \<^verbatim>\<open>update_config\<close> stores the objects it is
  given without copying them, and \<^verbatim>\<open>add_custom_pattern\<close> writes into a dictionary and
  appends to a list in place. To state what the two configuration methods do to a
  stored record, the objects are kept in a store; a reference is an index into it.
  Strings and numbers cannot be changed and are values.

  A dictionary has string keys, and a value is \<^verbatim>\<open>None\<close>, a truth value, an integer, a
  string or a reference; other keys and other values are not modelled.
\<close>

datatype pyval = PNone | PBool bool | PInt int | PStr string | PRef nat

datatype pyobj = PDict "(string \<times> pyval) list" | PList "pyval list"

type_synonym store = "pyobj list"

text \<open>The errors of the scanner on objects: those of the scanner on values, and the two
  that a value of an unexpected type brings.\<close>

datatype py_error = Error error | TypeError | AttributeError

text \<open>The attributes \<^verbatim>\<open>self.config\<close> and \<^verbatim>\<open>self.extracted_data\<close> hold references.\<close>

record scanner_obj =
  self_config :: nat
  self_extracted_data :: nat
  heap :: store

text \<open>A dictionary or list display and \<^verbatim>\<open>list(...)\<close> make a new object.\<close>

definition alloc :: "store \<Rightarrow> pyobj \<Rightarrow> nat \<times> store" where
  "alloc h ob = (length h, h @ [ob])"

text \<open>The dictionary, or the list, that a value refers to.\<close>

definition dict_at :: "store \<Rightarrow> pyval \<Rightarrow> (nat \<times> (string \<times> pyval) list) option" where
  "dict_at h v =
     (case v of
        PRef a \<Rightarrow>
          if a < length h then (case h ! a of PDict d \<Rightarrow> Some (a, d) | PList vs \<Rightarrow> None)
          else None
      | _ \<Rightarrow> None)"

definition list_at :: "store \<Rightarrow> pyval \<Rightarrow> (nat \<times> pyval list) option" where
  "list_at h v =
     (case v of
        PRef a \<Rightarrow>
          if a < length h then (case h ! a of PDict d \<Rightarrow> None | PList vs \<Rightarrow> Some (a, vs))
          else None
      | _ \<Rightarrow> None)"

text \<open>\<^verbatim>\<open>v[key]\<close> with a string as key: a \<^verbatim>\<open>KeyError\<close> when a dictionary lacks the key,
  a \<^verbatim>\<open>TypeError\<close> when the value is no dictionary.\<close>

definition subscript :: "store \<Rightarrow> pyval \<Rightarrow> string \<Rightarrow> py_error + pyval" where
  "subscript h v key =
     (case dict_at h v of
        None \<Rightarrow> Inl TypeError
      | Some (a, d) \<Rightarrow> (case map_of d key of None \<Rightarrow> Inl (Error KeyError) | Some x \<Rightarrow> Inr x))"

fun ebind :: "'e + 'a \<Rightarrow> ('a \<Rightarrow> 'e + 'b) \<Rightarrow> 'e + 'b" where
  "ebind (Inl e) f = Inl e"
| "ebind (Inr x) f = f x"

text \<open>The truth value of a value: \<^verbatim>\<open>None\<close>, zero and the empty string, dictionary
  and list are false.\<close>

definition truthy_val :: "store \<Rightarrow> pyval \<Rightarrow> bool" where
  "truthy_val h v =
     (case v of
        PNone \<Rightarrow> False
      | PBool b \<Rightarrow> b
      | PInt i \<Rightarrow> i \<noteq> 0
      | PStr s \<Rightarrow> s \<noteq> []
      | PRef a \<Rightarrow>
          if a < length h then (case h ! a of PDict d \<Rightarrow> d \<noteq> [] | PList vs \<Rightarrow> vs \<noteq> [])
          else True)"

subsection \<open>Loading the configuration\<close>

text \<open>
  \<^verbatim>\<open>json.load\<close> in \<^verbatim>\<open>load_config\<close>, for a file in the format of the configuration:
  every dictionary and every list of the file becomes a new object, and a key that
  the file lacks is absent.
\<close>

definition present :: "(string \<times> pyval option) list \<Rightarrow> (string \<times> pyval) list" where
  "present kvs = concat (map (\<lambda>(k, v). case v of None \<Rightarrow> [] | Some x \<Rightarrow> [(k, x)]) kvs)"

definition load_patterns :: "store \<Rightarrow> string list option \<Rightarrow> pyval option \<times> store" where
  "load_patterns h ps =
     (case ps of
        None \<Rightarrow> (None, h)
      | Some pats \<Rightarrow> (let (l, h') = alloc h (PList (map PStr pats)) in (Some (PRef l), h')))"

fun load_categories ::
  "store \<Rightarrow> (string \<times> category_settings) list \<Rightarrow> (string \<times> pyval) list \<times> store" where
  "load_categories h [] = ([], h)"
| "load_categories h ((category, settings) # rest) =
     (let (ps, h1) = load_patterns h (patterns settings);
          (d, h2) = alloc h1 (PDict (present
                      [(''enabled'', map_option PBool (enabled settings)), (''patterns'', ps)]));
          (entries, h3) = load_categories h2 rest
      in ((category, PRef d) # entries, h3))"

definition load_extraction_settings ::
  "store \<Rightarrow> (string \<times> category_settings) list option \<Rightarrow> pyval option \<times> store" where
  "load_extraction_settings h es =
     (case es of
        None \<Rightarrow> (None, h)
      | Some cats \<Rightarrow>
          (let (entries, h1) = load_categories h cats;
               (d, h2) = alloc h1 (PDict entries)
           in (Some (PRef d), h2)))"

definition load_preprocessing ::
  "store \<Rightarrow> preprocessing_settings option \<Rightarrow> pyval option \<times> store" where
  "load_preprocessing h pp =
     (case pp of
        None \<Rightarrow> (None, h)
      | Some p \<Rightarrow>
          (let (d, h') = alloc h (PDict (present
                           [(''denoise'', map_option PBool (denoise p)),
                            (''enhance_contrast'', map_option PBool (enhance_contrast p)),
                            (''sharpen'', map_option PBool (sharpen p))]))
           in (Some (PRef d), h')))"

definition load_ocr_settings :: "store \<Rightarrow> ocr_settings_t option \<Rightarrow> pyval option \<times> store" where
  "load_ocr_settings h ocr =
     (case ocr of
        None \<Rightarrow> (None, h)
      | Some s \<Rightarrow>
          (let (pp, h1) = load_preprocessing h (preprocessing s);
               (d, h2) = alloc h1 (PDict (present
                           [(''dpi'', map_option PInt (dpi s)),
                            (''preprocessing'', pp),
                            (''tesseract_config'', map_option PStr (tesseract_config s))]))
           in (Some (PRef d), h2)))"

definition load_config :: "store \<Rightarrow> config_t \<Rightarrow> nat \<times> store" where
  "load_config h cfg =
     (let (es, h1) = load_extraction_settings h (extraction_settings cfg);
          (ocr, h2) = load_ocr_settings h1 (ocr_settings cfg)
      in alloc h2 (PDict (present [(''extraction_settings'', es), (''ocr_settings'', ocr)])))"

text \<open>\<^verbatim>\<open>__init__\<close>, in a store that holds the objects the program has made so far; the
  empty dictionary of \<^verbatim>\<open>self.extracted_data\<close> is a new object too.\<close>

definition PIDScanner :: "store \<Rightarrow> config_t \<Rightarrow> scanner_obj" where
  "PIDScanner h cfg =
     (let (c, h1) = load_config h cfg;
          (e, h2) = alloc h1 (PDict [])
      in \<lparr>self_config = c, self_extracted_data = e, heap = h2\<rparr>)"

subsection \<open>Scanning\<close>

text \<open>
  What \<^verbatim>\<open>extract_text_from_pdf\<close> reads of the configuration object: the dpi, the three
  flags (by their truth value) and the options of the OCR engine. All of it is read
  inside the \<^verbatim>\<open>try\<close> block of method 2. A value of a type that the library called
  with it cannot take is read like a missing key: the call raises inside the block
  as the missing key does.
\<close>

definition get_item :: "store \<Rightarrow> pyval option \<Rightarrow> string \<Rightarrow> pyval option" where
  "get_item h v key =
     (case v of
        None \<Rightarrow> None
      | Some x \<Rightarrow> (case dict_at h x of None \<Rightarrow> None | Some (a, d) \<Rightarrow> map_of d key))"

definition config_view :: "store \<Rightarrow> nat \<Rightarrow> config_t" where
  "config_view h c =
     (let ocr = get_item h (Some (PRef c)) ''ocr_settings'';
          pp = get_item h ocr ''preprocessing''
      in \<lparr>extraction_settings = None,
          ocr_settings =
            (case ocr of
               None \<Rightarrow> None
             | Some x \<Rightarrow>
                 Some \<lparr>dpi = (case get_item h ocr ''dpi'' of Some (PInt i) \<Rightarrow> Some i | _ \<Rightarrow> None),
                       preprocessing =
                         (case pp of
                            None \<Rightarrow> None
                          | Some y \<Rightarrow>
                              Some \<lparr>denoise = map_option (truthy_val h) (get_item h pp ''denoise''),
                                    enhance_contrast =
                                      map_option (truthy_val h) (get_item h pp ''enhance_contrast''),
                                    sharpen = map_option (truthy_val h) (get_item h pp ''sharpen'')\<rparr>),
                       tesseract_config =
                         (case get_item h ocr ''tesseract_config'' of
                            Some (PStr s) \<Rightarrow> Some s
                          | _ \<Rightarrow> None)\<rparr>)\<rparr>)"

text \<open>\<^verbatim>\<open>for pattern in patterns\<close>: a list gives its elements, a dictionary its keys, a
  string its characters; nothing else can be iterated over.\<close>

definition iterate :: "store \<Rightarrow> pyval \<Rightarrow> py_error + pyval list" where
  "iterate h v =
     (case v of
        PStr s \<Rightarrow> Inr (map (\<lambda>c. PStr [c]) s)
      | PRef a \<Rightarrow>
          if a < length h
          then (case h ! a of PDict d \<Rightarrow> Inr (map (\<lambda>(k, x). PStr k) d) | PList vs \<Rightarrow> Inr vs)
          else Inl TypeError
      | _ \<Rightarrow> Inl TypeError)"

text \<open>The loop of \<^verbatim>\<open>extract_patterns\<close>; \<^verbatim>\<open>re.findall\<close> takes a string as pattern.\<close>

fun findall_loop_obj ::
  "'img backend \<Rightarrow> string \<Rightarrow> pyval list \<Rightarrow> string list \<Rightarrow> py_error + string list" where
  "findall_loop_obj B text [] matches = Inr matches"
| "findall_loop_obj B text (pattern # rest) matches =
     (case pattern of
        PStr p \<Rightarrow>
          (case re_findall B p text of
             Raises \<Rightarrow> Inl (Error RegexError)
           | Returns found \<Rightarrow> findall_loop_obj B text rest (matches @ found))
      | _ \<Rightarrow> Inl TypeError)"

definition extract_patterns_obj ::
  "'img backend \<Rightarrow> store \<Rightarrow> string \<Rightarrow> pyval \<Rightarrow> py_error + string list" where
  "extract_patterns_obj B h text patterns_val =
     ebind (iterate h patterns_val) (\<lambda>pats.
     ebind (findall_loop_obj B text pats []) (\<lambda>matches.
     Inr (list_of_set matches)))"

text \<open>
  The loop of \<^verbatim>\<open>scan_pdf\<close> over the items of the \<^verbatim>\<open>extraction_settings\<close> dictionary.
  \<^verbatim>\<open>settings.get\<close> needs a dictionary. The loop changes no object that exists before
  the call; it is given here as the computation of the matches of each category, and
  the objects of the results are made afterwards.
\<close>

fun scan_loop_obj ::
  "'img backend \<Rightarrow> store \<Rightarrow> string \<Rightarrow> (string \<times> pyval) list \<Rightarrow>
   (string \<times> string list) list \<Rightarrow> py_error + (string \<times> string list) list" where
  "scan_loop_obj B h text [] results = Inr results"
| "scan_loop_obj B h text ((category, settings) # rest) results =
     (case dict_at h settings of
        None \<Rightarrow> Inl AttributeError
      | Some (a, st) \<Rightarrow>
          if truthy_val h (case map_of st ''enabled'' of None \<Rightarrow> PBool True | Some v \<Rightarrow> v)
          then
            (case (case map_of st ''patterns'' of
                     None \<Rightarrow> Inr []
                   | Some ps \<Rightarrow> extract_patterns_obj B h text ps) of
               Inl e \<Rightarrow> Inl e
             | Inr matches \<Rightarrow>
                 scan_loop_obj B h text rest (AList.update category matches results))
          else scan_loop_obj B h text rest results)"

text \<open>The objects of \<^verbatim>\<open>results\<close>: for each category the list \<^verbatim>\<open>matches\<close> and the
  dictionary with the keys \<^verbatim>\<open>count\<close> and \<^verbatim>\<open>items\<close>.\<close>

fun store_results ::
  "store \<Rightarrow> (string \<times> string list) list \<Rightarrow> (string \<times> pyval) list \<times> store" where
  "store_results h [] = ([], h)"
| "store_results h ((category, matches) # rest) =
     (let (l, h1) = alloc h (PList (map PStr matches));
          (d, h2) = alloc h1 (PDict [(''count'', PInt (int (length matches))), (''items'', PRef l)]);
          (entries, h3) = store_results h2 rest
      in ((category, PRef d) # entries, h3))"

text \<open>
  \<^verbatim>\<open>scan_pdf\<close>: the dictionary assigned to \<^verbatim>\<open>self.extracted_data\<close> is a new object, and
  the reference to it is what the call returns.
\<close>

definition scan_pdf_obj ::
  "'img backend \<Rightarrow> scanner_obj \<Rightarrow> world \<Rightarrow> string \<Rightarrow> (py_error + pyval) \<times> scanner_obj \<times> world" where
  "scan_pdf_obj B so w path =
     (if \<not> path_exists B path then (Inl (Error FileNotFoundError), so, w)
      else
        (let (text_content, w') =
               extract_text_from_pdf B (config_view (heap so) (self_config so)) w path;
             combined_text = join '' '' text_content
         in case subscript (heap so) (PRef (self_config so)) ''extraction_settings'' of
              Inl e \<Rightarrow> (Inl e, so, w')
            | Inr es \<Rightarrow>
                (case dict_at (heap so) es of
                   None \<Rightarrow> (Inl AttributeError, so, w')
                 | Some (a, d) \<Rightarrow>
                     (case scan_loop_obj B (heap so) combined_text d [] of
                        Inl e \<Rightarrow> (Inl e, so, w')
                      | Inr results \<Rightarrow>
                          (let (entries, h1) = store_results (heap so) results;
                               (rs, h2) = alloc h1 (PDict entries);
                               (r, h3) = alloc h2 (PDict
                                  [(''pdf_path'', PStr path),
                                   (''extraction_results'', PRef rs),
                                   (''total_pages'', PInt (int (length text_content))),
                                   (''raw_text_preview'', PStr (text_preview combined_text))])
                           in (Inr (PRef r), so\<lparr>self_extracted_data := r, heap := h3\<rparr>, w'))))))"

subsection \<open>Changing the configuration\<close>

text \<open>
  \<^verbatim>\<open>update_config\<close>: \<^verbatim>\<open>self.config.update(new_config)\<close> assigns every item of the new
  dictionary to the configuration dictionary, in place. The argument is a dictionary
  with string keys, as its annotation says, and the model is given its items; their
  values are the caller's own objects, by reference. A configuration that is a list
  has no \<^verbatim>\<open>update\<close>.
\<close>

definition update_config ::
  "scanner_obj \<Rightarrow> (string \<times> pyval) list \<Rightarrow> (py_error + unit) \<times> scanner_obj" where
  "update_config so new_config =
     (case dict_at (heap so) (PRef (self_config so)) of
        None \<Rightarrow> (Inl AttributeError, so)
      | Some (c, d) \<Rightarrow>
          (Inr (),
           so\<lparr>heap := (heap so)[c := PDict (foldl (\<lambda>d' (k, v). AList.update k v d') d new_config)]\<rparr>))"

text \<open>
  The last statement of \<^verbatim>\<open>add_custom_pattern\<close>,
  \<^verbatim>\<open>self.config['extraction_settings'][category]['patterns'].append(pattern)\<close>: three
  lookups, then the list found is extended in place. Only a list has \<^verbatim>\<open>append\<close>.
\<close>

definition append_pattern ::
  "scanner_obj \<Rightarrow> string \<Rightarrow> string \<Rightarrow> (py_error + unit) \<times> scanner_obj" where
  "append_pattern so category pattern =
     (case ebind (subscript (heap so) (PRef (self_config so)) ''extraction_settings'') (\<lambda>es.
           ebind (subscript (heap so) es category) (\<lambda>settings.
           subscript (heap so) settings ''patterns'')) of
        Inl e \<Rightarrow> (Inl e, so)
      | Inr ps \<Rightarrow>
          (case list_at (heap so) ps of
             None \<Rightarrow> (Inl AttributeError, so)
           | Some (l, vs) \<Rightarrow>
               (Inr (), so\<lparr>heap := (heap so)[l := PList (vs @ [PStr pattern])]\<rparr>)))"

text \<open>
  \<^verbatim>\<open>add_custom_pattern\<close>. For a category that the \<^verbatim>\<open>extraction_settings\<close> dictionary
  lacks, a new list and a new dictionary are made and the dictionary object itself
  gets the new key; then the pattern is appended. When \<^verbatim>\<open>extraction_settings\<close> is no
  dictionary the call ends with a \<^verbatim>\<open>TypeError\<close> and has changed nothing: a value
  that cannot be searched raises at \<^verbatim>\<open>not in\<close>, and a list or a string raises at the
  subscript with a string, in the assignment or in the last statement.
\<close>

definition add_custom_pattern ::
  "scanner_obj \<Rightarrow> string \<Rightarrow> string \<Rightarrow> (py_error + unit) \<times> scanner_obj" where
  "add_custom_pattern so category pattern =
     (case subscript (heap so) (PRef (self_config so)) ''extraction_settings'' of
        Inl e \<Rightarrow> (Inl e, so)
      | Inr es \<Rightarrow>
          (case dict_at (heap so) es of
             None \<Rightarrow> (Inl TypeError, so)
           | Some (a, d) \<Rightarrow>
               (case map_of d category of
                  Some settings \<Rightarrow> append_pattern so category pattern
                | None \<Rightarrow>
                    (let (l, h1) = alloc (heap so) (PList []);
                         (c, h2) = alloc h1 (PDict [(''enabled'', PBool True), (''patterns'', PRef l)])
                     in append_pattern
                          (so\<lparr>heap := h2[a := PDict (AList.update category (PRef c) d)]\<rparr>)
                          category pattern))))"


section \<open>Notions used to state the properties\<close>

text \<open>The local variable \<^verbatim>\<open>combined_text\<close> of \<^verbatim>\<open>scan_pdf\<close>.\<close>

definition combined_text :: "'img backend \<Rightarrow> config_t \<Rightarrow> world \<Rightarrow> string \<Rightarrow> string" where
  "combined_text B cfg w path = join '' '' (fst (extract_text_from_pdf B cfg w path))"

text \<open>The record a scan returns, if it returns one.\<close>

definition scan_record_of ::
  "'img backend \<Rightarrow> scanner \<Rightarrow> world \<Rightarrow> string \<Rightarrow> scan_record option" where
  "scan_record_of B s w path =
     (case fst (scan_pdf B s w path) of Inl e \<Rightarrow> None | Inr r \<Rightarrow> Some r)"

subsection \<open>Pattern extraction\<close>



subsection \<open>Text acquisition\<close>

text \<open>The number of characters of a text that are not whitespace.\<close>

definition non_whitespace_length :: "string \<Rightarrow> nat" where
  "non_whitespace_length s = length (filter (\<lambda>c. \<not> isspace c) s)"

text \<open>What a stage obtained page by page, up to the first page that raised.\<close>

fun produced :: "'a outcome list \<Rightarrow> 'a list" where
  "produced [] = []"
| "produced (Raises # pages) = []"
| "produced (Returns t # pages) = t # produced pages"

text \<open>The text of a page of the text layer; \<^verbatim>\<open>None\<close> is no text.\<close>

definition text_of_page :: "string option \<Rightarrow> string" where
  "text_of_page t = (case t of None \<Rightarrow> [] | Some text \<Rightarrow> text)"

definition text_layer_texts :: "'img backend \<Rightarrow> string \<Rightarrow> string list" where
  "text_layer_texts B path =
     (case pdfplumber_pages B path of
        Raises \<Rightarrow> []
      | Returns pages \<Rightarrow> map text_of_page (produced pages))"

text \<open>The texts the OCR engine returned for the rasterized pages.\<close>

definition ocr_texts :: "'img backend \<Rightarrow> config_t \<Rightarrow> string \<Rightarrow> string list" where
  "ocr_texts B cfg path =
     (case obind (lookup (ocr_settings cfg)) (\<lambda>ocr. lookup (dpi ocr)) of
        Raises \<Rightarrow> []
      | Returns d \<Rightarrow>
          (case convert_from_path B path d of
             Raises \<Rightarrow> []
           | Returns imgs \<Rightarrow> produced (map (ocr_page B cfg) imgs)))"

text \<open>How many texts are not the empty string, and how many have a character that is
  not whitespace.\<close>

definition nonempty_count :: "string list \<Rightarrow> nat" where
  "nonempty_count texts = length (filter (\<lambda>t. t \<noteq> []) texts)"

definition nonblank_count :: "string list \<Rightarrow> nat" where
  "nonblank_count texts = length (filter (\<lambda>t. strip t \<noteq> []) texts)"

text \<open>The test that lets method 1 return its texts.\<close>

definition text_layer_accepted :: "'img backend \<Rightarrow> string \<Rightarrow> bool" where
  "text_layer_accepted B path \<longleftrightarrow> 50 < length (strip (join '' '' (plumber_extraction B path)))"

subsection \<open>Filtering\<close>

text \<open>The entries of the results with the given category name, if one is given, and
  a count of at least the threshold.\<close>

definition entries_matching ::
  "(string \<times> extraction_result) list \<Rightarrow> string option \<Rightarrow> int \<Rightarrow>
   (string \<times> extraction_result) list" where
  "entries_matching results category min_count =
     filter (\<lambda>(cat, d). (case category of None \<Rightarrow> True | Some c \<Rightarrow> cat = c) \<and> min_count \<le> count d)
       results"

subsection \<open>Configuration changes\<close>

text \<open>
  The objects of a value: an object is part of a dictionary or list when a chain of
  references leads from it to the object. The objects of the stored record are those
  reached from \<^verbatim>\<open>self.extracted_data\<close>, the objects of the configuration those
  reached from \<^verbatim>\<open>self.config\<close>.
\<close>

definition values_of :: "pyobj \<Rightarrow> pyval list" where
  "values_of ob = (case ob of PDict d \<Rightarrow> map snd d | PList vs \<Rightarrow> vs)"

inductive_set reach :: "store \<Rightarrow> nat \<Rightarrow> nat set" for h :: store and a :: nat where
  reach_root: "a \<in> reach h a"
| reach_step: "b \<in> reach h a \<Longrightarrow> b < length h \<Longrightarrow> PRef c \<in> set (values_of (h ! b)) \<Longrightarrow>
     c \<in> reach h a"

definition record_objects :: "scanner_obj \<Rightarrow> nat set" where
  "record_objects so = reach (heap so) (self_extracted_data so)"

definition config_objects :: "scanner_obj \<Rightarrow> nat set" where
  "config_objects so = reach (heap so) (self_config so)"

text \<open>The configuration and the stored record share no object.\<close>

definition apart :: "scanner_obj \<Rightarrow> bool" where
  "apart so \<longleftrightarrow> config_objects so \<inter> record_objects so = {}"

text \<open>No value of the items refers to an object from which an object of the stored
  record is reached; every reference of the items is to an object of the store.\<close>

definition holds_no_record_object :: "scanner_obj \<Rightarrow> (string \<times> pyval) list \<Rightarrow> bool" where
  "holds_no_record_object so new_config \<longleftrightarrow>
     (\<forall>a. PRef a \<in> snd ` set new_config \<longrightarrow>
        a < length (heap so) \<and> reach (heap so) a \<inter> record_objects so = {})"

text \<open>
  What is seen of a value down to a depth: the content of the dictionaries and lists
  met on the way, with \<open>CMore\<close> where the depth ends. The stored record is unchanged
  when its content is the same at every depth.
\<close>

datatype content =
  CNone | CBool bool | CInt int | CStr string
  | CDict "(string \<times> content) list" | CList "content list" | CMore

fun snapshot :: "nat \<Rightarrow> store \<Rightarrow> pyval \<Rightarrow> content" where
  "snapshot n h PNone = CNone"
| "snapshot n h (PBool b) = CBool b"
| "snapshot n h (PInt i) = CInt i"
| "snapshot n h (PStr s) = CStr s"
| "snapshot 0 h (PRef a) = CMore"
| "snapshot (Suc n) h (PRef a) =
     (if a < length h
      then (case h ! a of
              PDict d \<Rightarrow> CDict (map (\<lambda>(k, v). (k, snapshot n h v)) d)
            | PList vs \<Rightarrow> CList (map (snapshot n h) vs))
      else CMore)"

definition record_content :: "nat \<Rightarrow> scanner_obj \<Rightarrow> content" where
  "record_content n so = snapshot n (heap so) (PRef (self_extracted_data so))"

text \<open>The content of a scan record of the scanner on values.\<close>

definition content_of_record :: "scan_record \<Rightarrow> content" where
  "content_of_record r =
     CDict [(''pdf_path'', CStr (pdf_path r)),
            (''extraction_results'',
               CDict (map (\<lambda>(category, d).
                  (category, CDict [(''count'', CInt (count d)),
                                    (''items'', CList (map CStr (items d)))]))
                 (extraction_results r))),
            (''total_pages'', CInt (total_pages r)),
            (''raw_text_preview'', CStr (raw_text_preview r))]"

text \<open>Every reference in the store is to an object of the store, and so are the two
  attributes of the scanner.\<close>

definition closed :: "store \<Rightarrow> bool" where
  "closed h \<longleftrightarrow>
     list_all (\<lambda>ob. list_all (\<lambda>v. case v of PRef c \<Rightarrow> c < length h | _ \<Rightarrow> True) (values_of ob)) h"

definition well_formed :: "scanner_obj \<Rightarrow> bool" where
  "well_formed so \<longleftrightarrow>
     closed (heap so) \<and> self_config so < length (heap so) \<and>
     self_extracted_data so < length (heap so)"

text \<open>
  The object that \<^verbatim>\<open>add_custom_pattern\<close> writes into, when it gets that far: the
  \<^verbatim>\<open>extraction_settings\<close> dictionary for a category that it lacks, the list of
  patterns of a category that it has.
\<close>

definition written_by_add :: "scanner_obj \<Rightarrow> string \<Rightarrow> nat option" where
  "written_by_add so category =
     (case subscript (heap so) (PRef (self_config so)) ''extraction_settings'' of
        Inl e \<Rightarrow> None
      | Inr es \<Rightarrow>
          (case dict_at (heap so) es of
             None \<Rightarrow> None
           | Some (a, d) \<Rightarrow>
               (case map_of d category of
                  None \<Rightarrow> Some a
                | Some settings \<Rightarrow>
                    (case subscript (heap so) settings ''patterns'' of
                       Inl e \<Rightarrow> None
                     | Inr ps \<Rightarrow> map_option fst (list_at (heap so) ps)))))"

text \<open>The second store is the first with new objects added, and every reference of a
  new object is to a new object.\<close>

definition new_objects_only :: "store \<Rightarrow> store \<Rightarrow> bool" where
  "new_objects_only h h' \<longleftrightarrow>
     (\<exists>ext. h' = h @ ext \<and>
        (\<forall>ob \<in> set ext. \<forall>c. PRef c \<in> set (values_of ob) \<longrightarrow> length h \<le> c \<and> c < length h'))"


section \<open>A sample document and sample libraries\<close>

text \<open>
  Concrete inputs on which the properties below are run. The text of the sample
  drawing has 55 characters, 47 of them not whitespace. The sample
  \<^verbatim>\<open>re.findall\<close> answers as Python does for the patterns used below: the pattern
  \<^verbatim>\<open>(\<close> has an unbalanced parenthesis and is rejected whatever the text; on the
  sample text, with or without whitespace around it, the two tag patterns each match
  \<^verbatim>\<open>P-101\<close> at its two places and the valve pattern matches \<^verbatim>\<open>HV-202\<close>; on the
  other texts used (the empty text and a run of the letter a) nothing matches. An image of the sample rasterizer is the
  text that the sample OCR engine reads from it.
\<close>

definition sample_text :: string where
  "sample_text = ''P-101 FEED PUMP HV-202 ISOLATION VALVE P-101 SPARE PUMP''"

definition sample_findall :: "string \<Rightarrow> string \<Rightarrow> string list outcome" where
  "sample_findall pattern text =
     (if pattern = ''('' then Raises
      else if strip text \<noteq> sample_text then Returns []
      else if pattern = ''P-[0-9]+'' then Returns [''P-101'', ''P-101'']
      else if pattern = ''[A-Z]-101'' then Returns [''P-101'', ''P-101'']
      else if pattern = ''HV-[0-9]+'' then Returns [''HV-202'']
      else Returns [])"

definition sample_backend ::
  "string option outcome list outcome \<Rightarrow> string list outcome \<Rightarrow> string backend" where
  "sample_backend pages imgs =
     \<lparr>path_exists = (\<lambda>path. path = ''drawing.pdf''),
      pdfplumber_pages = (\<lambda>path. pages),
      convert_from_path = (\<lambda>path d. imgs),
      has_colour_channels = (\<lambda>img. True),
      medianBlur = Returns,
      clahe_contrast = Returns,
      filter2D_sharpen = Returns,
      image_to_string = (\<lambda>img ocr_config. Returns img),
      re_findall = sample_findall,
      can_open_for_write = (\<lambda>path. True),
      to_csv = (\<lambda>rows. concat (map (\<lambda>(c, i, p). c @ '','' @ i @ '','' @ p @ '';'') rows)),
      json_dump = (\<lambda>r. pdf_path r)\<rparr>"

text \<open>What the OCR engine returns for a page without text: a form feed.\<close>

definition blank_page_text :: string where
  "blank_page_text = [CHR 0x0C]"

definition sample_ocr_settings :: ocr_settings_t where
  "sample_ocr_settings =
     \<lparr>dpi = Some 300,
      preprocessing = Some \<lparr>denoise = Some True, enhance_contrast = Some True, sharpen = Some False\<rparr>,
      tesseract_config = Some ''--psm 6''\<rparr>"

definition sample_config :: config_t where
  "sample_config =
     \<lparr>extraction_settings = Some
        [(''equipment_tags'', \<lparr>enabled = Some True, patterns = Some [''P-[0-9]+'', ''[A-Z]-101'']\<rparr>),
         (''valves'', \<lparr>enabled = None, patterns = Some [''HV-[0-9]+'']\<rparr>),
         (''instruments'', \<lparr>enabled = Some False, patterns = Some [''('']\<rparr>),
         (''pipe_specifications'', \<lparr>enabled = None, patterns = None\<rparr>)],
      ocr_settings = Some sample_ocr_settings\<rparr>"

definition invalid_pattern_config :: config_t where
  "invalid_pattern_config =
     \<lparr>extraction_settings = Some [(''valves'', \<lparr>enabled = Some True, patterns = Some [''('']\<rparr>)],
      ocr_settings = Some sample_ocr_settings\<rparr>"

definition no_sections_config :: config_t where
  "no_sections_config = \<lparr>extraction_settings = None, ocr_settings = Some sample_ocr_settings\<rparr>"

definition sample_world :: world where
  "sample_world = \<lparr>rasterizer_calls = [], files = []\<rparr>"

text \<open>The record of a scan of the sample drawing with the sample configuration.\<close>

definition sample_results :: "(string \<times> extraction_result) list" where
  "sample_results =
     [(''equipment_tags'', \<lparr>count = 1, items = [''P-101'']\<rparr>),
      (''valves'', \<lparr>count = 1, items = [''HV-202'']\<rparr>),
      (''pipe_specifications'', \<lparr>count = 0, items = []\<rparr>)]"

definition sample_record :: scan_record where
  "sample_record =
     \<lparr>pdf_path = ''drawing.pdf'', extraction_results = sample_results,
      total_pages = 1, raw_text_preview = sample_text\<rparr>"

text \<open>The record of a scan of the sample drawing when no text is found.\<close>

definition empty_record :: scan_record where
  "empty_record =
     \<lparr>pdf_path = ''drawing.pdf'',
      extraction_results =
        [(''equipment_tags'', \<lparr>count = 0, items = []\<rparr>),
         (''valves'', \<lparr>count = 0, items = []\<rparr>),
         (''pipe_specifications'', \<lparr>count = 0, items = []\<rparr>)],
      total_pages = 0, raw_text_preview = []\<rparr>"

text \<open>A page of 501 characters, and the record of its scan.\<close>

definition long_page :: string where
  "long_page = replicate 501 CHR ''a''"

definition long_record :: scan_record where
  "long_record =
     \<lparr>pdf_path = ''drawing.pdf'',
      extraction_results =
        [(''equipment_tags'', \<lparr>count = 0, items = []\<rparr>),
         (''valves'', \<lparr>count = 0, items = []\<rparr>),
         (''pipe_specifications'', \<lparr>count = 0, items = []\<rparr>)],
      total_pages = 1, raw_text_preview = replicate 500 CHR ''a'' @ ''...''\<rparr>"

text \<open>
  The sample scanner with a store, and the scanner after the scan of the sample
  drawing: the configuration dictionary is object 10 and its
  \<^verbatim>\<open>extraction_settings\<close> object 7; the record \<^verbatim>\<open>r\<close> that the scan returns is object
  19, \<^verbatim>\<open>r['extraction_results']\<close> is object 18 and the list of the valve items is
  object 14. Two new configurations of a caller who holds \<^verbatim>\<open>r\<close>: one is
  \<^verbatim>\<open>{'extraction_settings': r['extraction_results']}\<close>; for the other the caller makes
  two dictionaries, for
  \<^verbatim>\<open>{'extraction_settings': {'valves': {'enabled': True, 'patterns': items}}}\<close> with
  \<^verbatim>\<open>items\<close> the list \<^verbatim>\<open>r['extraction_results']['valves']['items']\<close>.
\<close>

definition sample_scanner :: scanner_obj where
  "sample_scanner = PIDScanner [] sample_config"

definition sample_scanned :: scanner_obj where
  "sample_scanned =
     fst (snd (scan_pdf_obj (sample_backend (Returns [Returns (Some sample_text)]) Raises)
       sample_scanner sample_world ''drawing.pdf''))"

definition results_as_settings :: "(string \<times> pyval) list" where
  "results_as_settings = [(''extraction_settings'', PRef 18)]"

definition results_shared :: scanner_obj where
  "results_shared = snd (update_config sample_scanned results_as_settings)"

definition pumps_content :: content where
  "pumps_content =
     CDict [(''pdf_path'', CStr ''drawing.pdf''),
            (''extraction_results'',
               CDict [(''equipment_tags'',
                         CDict [(''count'', CInt 1), (''items'', CList [CStr ''P-101''])]),
                      (''valves'',
                         CDict [(''count'', CInt 1), (''items'', CList [CStr ''HV-202''])]),
                      (''pipe_specifications'',
                         CDict [(''count'', CInt 0), (''items'', CList [])]),
                      (''pumps'',
                         CDict [(''enabled'', CBool True),
                                (''patterns'', CList [CStr ''P-[0-9]+''])])]),
            (''total_pages'', CInt 1),
            (''raw_text_preview'', CStr sample_text)]"

definition items_as_patterns :: "(string \<times> pyval) list" where
  "items_as_patterns = [(''extraction_settings'', PRef 21)]"

definition items_shared :: scanner_obj where
  "items_shared =
     snd (update_config
       (sample_scanned\<lparr>heap := heap sample_scanned @
          [PDict [(''enabled'', PBool True), (''patterns'', PRef 14)],
           PDict [(''valves'', PRef 20)]]\<rparr>)
       items_as_patterns)"

definition valves_content :: content where
  "valves_content =
     CDict [(''pdf_path'', CStr ''drawing.pdf''),
            (''extraction_results'',
               CDict [(''equipment_tags'',
                         CDict [(''count'', CInt 1), (''items'', CList [CStr ''P-101''])]),
                      (''valves'',
                         CDict [(''count'', CInt 1),
                                (''items'', CList [CStr ''HV-202'', CStr ''XV-[0-9]+''])]),
                      (''pipe_specifications'',
                         CDict [(''count'', CInt 0), (''items'', CList [])])]),
            (''total_pages'', CInt 1),
            (''raw_text_preview'', CStr sample_text)]"

text \<open>A new configuration that holds no object, and the record of the scan that
  follows \<^verbatim>\<open>add_custom_pattern('pumps', 'P-[0-9]+')\<close>.\<close>

definition plain_settings :: "(string \<times> pyval) list" where
  "plain_settings = [(''output_format'', PStr ''json'')]"

definition rescanned :: scanner_obj where
  "rescanned =
     fst (snd (scan_pdf_obj (sample_backend (Returns [Returns (Some sample_text)]) Raises)
       (snd (add_custom_pattern sample_scanned ''pumps'' ''P-[0-9]+''))
       sample_world ''drawing.pdf''))"

definition rescanned_content :: content where
  "rescanned_content =
     CDict [(''pdf_path'', CStr ''drawing.pdf''),
            (''extraction_results'',
               CDict [(''equipment_tags'',
                         CDict [(''count'', CInt 1), (''items'', CList [CStr ''P-101''])]),
                      (''valves'',
                         CDict [(''count'', CInt 1), (''items'', CList [CStr ''HV-202''])]),
                      (''pipe_specifications'',
                         CDict [(''count'', CInt 0), (''items'', CList [])]),
                      (''pumps'',
                         CDict [(''count'', CInt 1), (''items'', CList [CStr ''P-101''])])]),
            (''total_pages'', CInt 1),
            (''raw_text_preview'', CStr sample_text)]"


section \<open>Facts about the loops\<close>


lemma update_fresh: "k \<notin> fst ` set al \<Longrightarrow> AList.update k v al = al @ [(k, v)]"
  by (induction al) auto


lemma findall_loop_total:
  "(\<forall>p \<in> set pats. re_findall B p text \<noteq> Raises) \<Longrightarrow> \<exists>ms. findall_loop B text pats acc = Returns ms"
  by (induction pats arbitrary: acc) (auto split: outcome.splits)

lemma findall_loop_Raises:
  "findall_loop B text pats acc = Raises \<longleftrightarrow> (\<exists>p \<in> set pats. re_findall B p text = Raises)"
  by (induction pats arbitrary: acc) (auto split: outcome.splits)


lemma extract_patterns_Raises:
  "extract_patterns B text pats = Raises \<longleftrightarrow> (\<exists>p \<in> set pats. re_findall B p text = Raises)"
proof -
  have "extract_patterns B text pats = Raises \<longleftrightarrow> findall_loop B text pats [] = Raises"
    by (simp add: extract_patterns_def split: outcome.splits)
  then show ?thesis by (simp add: findall_loop_Raises)
qed


lemma scan_loop_keys:
  "scan_loop B text es acc = Inr res \<Longrightarrow>
   fst ` set res = fst ` set acc \<union> {c. \<exists>st. (c, st) \<in> set es \<and> get_enabled st}"
proof (induction es arbitrary: acc)
  case Nil
  then show ?case by simp
next
  case (Cons e es)
  obtain k st where e: "e = (k, st)" by (cases e)
  show ?case
  proof (cases "get_enabled st")
    case False
    with Cons e show ?thesis by auto
  next
    case True
    with Cons.prems e obtain ms where
      rest: "scan_loop B text es (AList.update k \<lparr>count = int (length ms), items = ms\<rparr> acc) = Inr res"
      by (auto split: outcome.splits)
    from Cons.IH[OF rest] True e show ?thesis
      by (auto simp: AList.dom_update)
  qed
qed

lemma scan_loop_distinct:
  "scan_loop B text es acc = Inr res \<Longrightarrow> distinct (map fst acc) \<Longrightarrow> distinct (map fst res)"
proof (induction es arbitrary: acc)
  case Nil
  then show ?case by simp
next
  case (Cons e es)
  obtain k st where e: "e = (k, st)" by (cases e)
  from Cons.prems(1) e consider "scan_loop B text es acc = Inr res"
    | ms where "scan_loop B text es (AList.update k \<lparr>count = int (length ms), items = ms\<rparr> acc) = Inr res"
    by (auto split: if_splits outcome.splits)
  then show ?case
  proof cases
    case 1
    then show ?thesis using Cons.IH Cons.prems(2) by blast
  next
    case 2
    then show ?thesis using Cons.IH AList.distinct_update[OF Cons.prems(2)] by blast
  qed
qed

lemma scan_loop_other:
  "scan_loop B text es acc = Inr res \<Longrightarrow> c \<notin> fst ` set es \<Longrightarrow> map_of res c = map_of acc c"
  by (induction es arbitrary: acc) (auto split: if_splits outcome.splits simp: AList.update_conv')

lemma scan_loop_lookup:
  "scan_loop B text es acc = Inr res \<Longrightarrow> distinct (map fst es) \<Longrightarrow> (c, st) \<in> set es \<Longrightarrow>
   get_enabled st \<Longrightarrow>
   \<exists>ms. extract_patterns B text (get_patterns st) = Returns ms \<and>
        map_of res c = Some \<lparr>count = int (length ms), items = ms\<rparr>"
proof (induction es arbitrary: acc)
  case Nil
  then show ?case by simp
next
  case (Cons e es)
  obtain k st' where e: "e = (k, st')" by (cases e)
  show ?case
  proof (cases "(c, st) = (k, st')")
    case True
    with Cons.prems e obtain ms where
      ms: "extract_patterns B text (get_patterns st) = Returns ms" and
      rest: "scan_loop B text es (AList.update c \<lparr>count = int (length ms), items = ms\<rparr> acc) = Inr res"
      by (auto split: outcome.splits)
    from Cons.prems(2) e True have "c \<notin> fst ` set es" by auto
    from scan_loop_other[OF rest this] ms show ?thesis
      by (simp add: AList.update_conv')
  next
    case False
    with Cons.prems e have mem: "(c, st) \<in> set es" and d: "distinct (map fst es)" by auto
    from Cons.prems(1) e obtain acc' where "scan_loop B text es acc' = Inr res"
      by (auto split: if_splits outcome.splits)
    from Cons.IH[OF this d mem Cons.prems(4)] show ?thesis .
  qed
qed

lemma scan_loop_total:
  "(\<forall>(c, st) \<in> set es. get_enabled st \<longrightarrow> (\<forall>p \<in> set (get_patterns st). re_findall B p text \<noteq> Raises)) \<Longrightarrow>
   \<exists>res. scan_loop B text es acc = Inr res"
proof (induction es arbitrary: acc)
  case Nil
  then show ?case by simp
next
  case (Cons e es)
  obtain k st where e: "e = (k, st)" by (cases e)
  show ?case
  proof (cases "get_enabled st")
    case False
    with Cons e show ?thesis by auto
  next
    case True
    with Cons.prems e have "extract_patterns B text (get_patterns st) \<noteq> Raises"
      by (auto simp: extract_patterns_Raises)
    then obtain ms where "extract_patterns B text (get_patterns st) = Returns ms"
      by (cases "extract_patterns B text (get_patterns st)") auto
    with Cons e True show ?thesis by auto
  qed
qed

lemma scan_pdf_Inr:
  assumes "scan_pdf B s w path = (Inr r, s', w')"
  shows "path_exists B path"
    and "\<exists>es. extraction_settings (config s) = Some es \<and>
           scan_loop B (combined_text B (config s) w path) es [] = Inr (extraction_results r)"
    and "r = \<lparr>pdf_path = path, extraction_results = extraction_results r,
              total_pages = int (length (fst (extract_text_from_pdf B (config s) w path))),
              raw_text_preview = text_preview (combined_text B (config s) w path)\<rparr>"
    and "s' = s\<lparr>extracted_data := Some r\<rparr>"
    and "w' = snd (extract_text_from_pdf B (config s) w path)"
  using assms
  by (auto simp: scan_pdf_def combined_text_def Let_def
           split: if_splits prod.splits option.splits sum.splits)


lemma sample_scan:
  "scan_pdf (sample_backend (Returns [Returns (Some sample_text)]) Raises)
     (init_scanner sample_config) sample_world ''drawing.pdf'' =
   (Inr sample_record, \<lparr>config = sample_config, extracted_data = Some sample_record\<rparr>, sample_world)"
  by code_simp

section \<open>Pattern extraction and the items of a category\<close>




section \<open>Missing keys of a category\<close>

text \<open>
  Claim C10. In a scan that returns, a category of the configuration whose settings
  have no \<^verbatim>\<open>enabled\<close> key is among the extraction results, and an enabled category
  whose settings have no \<^verbatim>\<open>patterns\<close> key has the result with count 0 and no items;
  extracting with the missing pattern list returns the empty list, it does not raise.
\<close>

theorem missing_keys_defaults:
  assumes "scan_pdf B s w path = (Inr r, s', w')"
    and "extraction_settings (config s) = Some es"
    and "distinct (map fst es)"
    and "(category, settings) \<in> set es"
  shows "(enabled settings = None \<longrightarrow> category \<in> fst ` set (extraction_results r)) \<and>
         (get_enabled settings \<and> patterns settings = None \<longrightarrow>
            map_of (extraction_results r) category = Some \<lparr>count = 0, items = []\<rparr>) \<and>
         (patterns settings = None \<longrightarrow>
            extract_patterns B (combined_text B (config s) w path) (get_patterns settings) =
              Returns [])"
proof -
  from scan_pdf_Inr(2)[OF assms(1)] assms(2)
  have loop: "scan_loop B (combined_text B (config s) w path) es [] = Inr (extraction_results r)"
    by auto
  have none: "patterns settings = None \<Longrightarrow>
      extract_patterns B (combined_text B (config s) w path) (get_patterns settings) = Returns []"
    by (simp add: get_patterns_def extract_patterns_def list_of_set_def)
  have a: "enabled settings = None \<Longrightarrow> category \<in> fst ` set (extraction_results r)"
    using scan_loop_keys[OF loop] assms(4) by (auto simp: get_enabled_def)
  have b: "get_enabled settings \<Longrightarrow> patterns settings = None \<Longrightarrow>
      map_of (extraction_results r) category = Some \<lparr>count = 0, items = []\<rparr>"
    using scan_loop_lookup[OF loop assms(3) assms(4)] none by auto
  from a b none show ?thesis by blast
qed

theorem missing_keys_defaults_witness:
  "scan_pdf (sample_backend (Returns [Returns (Some sample_text)]) Raises)
     (init_scanner sample_config) sample_world ''drawing.pdf'' =
     (Inr sample_record, \<lparr>config = sample_config, extracted_data = Some sample_record\<rparr>,
      sample_world) \<and>
   enabled \<lparr>enabled = None, patterns = None\<rparr> = None \<and>
   patterns \<lparr>enabled = None, patterns = None\<rparr> = None \<and>
   get_enabled \<lparr>enabled = None, patterns = None\<rparr> \<and>
   ''pipe_specifications'' \<in> fst ` set (extraction_results sample_record) \<and>
   map_of (extraction_results sample_record) ''pipe_specifications'' =
     Some \<lparr>count = 0, items = []\<rparr>"
proof -
  let ?B = "sample_backend (Returns [Returns (Some sample_text)]) Raises"
  let ?st = "\<lparr>enabled = None, patterns = None\<rparr>"
  have h2: "extraction_settings (config (init_scanner sample_config)) =
      Some (the (extraction_settings sample_config))"
    by (simp add: init_scanner_def sample_config_def)
  have h3: "distinct (map fst (the (extraction_settings sample_config)))"
    by (simp add: sample_config_def)
  have h4: "(''pipe_specifications'', ?st) \<in> set (the (extraction_settings sample_config))"
    by (simp add: sample_config_def)
  have h5: "get_enabled ?st" by (simp add: get_enabled_def)
  from missing_keys_defaults[OF sample_scan h2 h3 h4] h5 sample_scan
  show ?thesis by simp
qed

section \<open>When a scan fails and when it succeeds\<close>

lemma scan_pdf_missing:
  "\<not> path_exists B path \<Longrightarrow> scan_pdf B s w path = (Inl FileNotFoundError, s, w)"
  by (simp add: scan_pdf_def)

lemma scan_loop_error: "scan_loop B text es acc = Inl e \<Longrightarrow> e = RegexError"
  by (induction es arbitrary: acc) (auto split: if_splits outcome.splits)

lemma scan_loop_raises:
  "\<exists>(c, st) \<in> set es. get_enabled st \<and>
      (\<exists>p \<in> set (get_patterns st). re_findall B p text = Raises) \<Longrightarrow>
   scan_loop B text es acc = Inl RegexError"
proof (induction es arbitrary: acc)
  case Nil
  then show ?case by simp
next
  case (Cons e es)
  obtain k st where e: "e = (k, st)" by (cases e)
  show ?case
  proof (cases "get_enabled st \<and> extract_patterns B text (get_patterns st) = Raises")
    case True
    with e show ?thesis by simp
  next
    case False
    then have "\<not> (get_enabled st \<and> (\<exists>p \<in> set (get_patterns st). re_findall B p text = Raises))"
      by (simp add: extract_patterns_Raises)
    with Cons.prems e have rest: "\<exists>(c, st) \<in> set es. get_enabled st \<and>
        (\<exists>p \<in> set (get_patterns st). re_findall B p text = Raises)"
      by auto
    show ?thesis
    proof (cases "get_enabled st")
      case False
      with e Cons.IH[OF rest] show ?thesis by simp
    next
      case True
      with \<open>\<not> (get_enabled st \<and> extract_patterns B text (get_patterns st) = Raises)\<close>
      obtain ms where "extract_patterns B text (get_patterns st) = Returns ms"
        by (cases "extract_patterns B text (get_patterns st)") auto
      with True e Cons.IH[OF rest] show ?thesis by simp
    qed
  qed
qed

lemma scan_pdf_no_sections:
  assumes "path_exists B path" and "extraction_settings (config s) = None"
  shows "scan_pdf B s w path =
     (Inl KeyError, s, snd (extract_text_from_pdf B (config s) w path))"
  using assms
  by (cases "extract_text_from_pdf B (config s) w path") (simp add: scan_pdf_def Let_def)

lemma scan_pdf_loop_fails:
  assumes "path_exists B path"
    and "extraction_settings (config s) = Some es"
    and "scan_loop B (combined_text B (config s) w path) es [] = Inl e"
  shows "scan_pdf B s w path = (Inl e, s, snd (extract_text_from_pdf B (config s) w path))"
  using assms
  by (cases "extract_text_from_pdf B (config s) w path")
     (simp add: scan_pdf_def combined_text_def Let_def)

lemma scan_pdf_not_missing:
  assumes "path_exists B path"
  shows "fst (scan_pdf B s w path) \<noteq> Inl FileNotFoundError"
proof (cases "extract_text_from_pdf B (config s) w path")
  case (Pair text_content w')
  show ?thesis
  proof (cases "extraction_settings (config s)")
    case None
    with assms Pair show ?thesis by (simp add: scan_pdf_def)
  next
    case (Some es)
    show ?thesis
    proof (cases "scan_loop B (join '' '' text_content) es []")
      case (Inl e)
      with scan_loop_error[OF Inl] assms Pair Some show ?thesis by (simp add: scan_pdf_def)
    next
      case (Inr results)
      with assms Pair Some show ?thesis by (simp add: scan_pdf_def Let_def)
    qed
  qed
qed

lemma scan_pdf_succeeds:
  assumes "path_exists B path"
    and "extraction_settings (config s) = Some es"
    and "scan_loop B (combined_text B (config s) w path) es [] = Inr results"
  shows "scan_pdf B s w path =
     (Inr \<lparr>pdf_path = path, extraction_results = results,
           total_pages = int (length (fst (extract_text_from_pdf B (config s) w path))),
           raw_text_preview = text_preview (combined_text B (config s) w path)\<rparr>,
      s\<lparr>extracted_data := Some \<lparr>pdf_path = path, extraction_results = results,
           total_pages = int (length (fst (extract_text_from_pdf B (config s) w path))),
           raw_text_preview = text_preview (combined_text B (config s) w path)\<rparr>\<rparr>,
      snd (extract_text_from_pdf B (config s) w path))"
  using assms
  by (cases "extract_text_from_pdf B (config s) w path")
     (simp add: scan_pdf_def combined_text_def Let_def)

lemma acquisition_degrades:
  "pdfplumber_pages B path = Raises \<Longrightarrow> convert_from_path B path = (\<lambda>d. Raises) \<Longrightarrow>
   fst (extract_text_from_pdf B cfg w path) = []"
  by (simp add: extract_text_from_pdf_def plumber_extraction_def ocr_extraction_def Let_def
           split: outcome.splits)

text \<open>
  Claim C3, as the code has it. A scan of a path that does not exist fails with
  \<open>FileNotFoundError\<close> and leaves the scanner and the world (the rasterizer's call
  log included) as they were; a scan of an existing path never fails with that error.
  For an existing path, when the configuration has its \<^verbatim>\<open>extraction_settings\<close> and
  \<^verbatim>\<open>re.findall\<close> accepts every pattern of every enabled category, the scan returns a
  record for the path, stores it, and the record's categories are the enabled ones.
  When both acquisition methods fail, the text is empty and the scan goes on with it.
  Two errors are not caught and leave \<^verbatim>\<open>scan_pdf\<close>, for an existing path, after the text
  has been acquired and with no record stored: the \<open>KeyError\<close> of a configuration
  without \<^verbatim>\<open>extraction_settings\<close>, and the error of \<^verbatim>\<open>re.findall\<close> as soon as one
  pattern of one enabled category is rejected. So, for an existing path whose
  configuration has its \<^verbatim>\<open>extraction_settings\<close>, the scan returns a record exactly
  when every pattern of every enabled category is accepted.
\<close>

theorem scan_outcome:
  "(\<not> path_exists B path \<longrightarrow> scan_pdf B s w path = (Inl FileNotFoundError, s, w)) \<and>
   (path_exists B path \<longrightarrow> fst (scan_pdf B s w path) \<noteq> Inl FileNotFoundError) \<and>
   (pdfplumber_pages B path = Raises \<and> convert_from_path B path = (\<lambda>d. Raises) \<longrightarrow>
      fst (extract_text_from_pdf B (config s) w path) = []) \<and>
   (path_exists B path \<and> extraction_settings (config s) = Some es \<and>
    (\<forall>(c, st) \<in> set es. get_enabled st \<longrightarrow>
       (\<forall>p \<in> set (get_patterns st).
          re_findall B p (combined_text B (config s) w path) \<noteq> Raises)) \<longrightarrow>
      (\<exists>r. scan_pdf B s w path =
             (Inr r, s\<lparr>extracted_data := Some r\<rparr>,
              snd (extract_text_from_pdf B (config s) w path)) \<and>
           pdf_path r = path \<and>
           total_pages r = int (length (fst (extract_text_from_pdf B (config s) w path))) \<and>
           fst ` set (extraction_results r) = {c. \<exists>st. (c, st) \<in> set es \<and> get_enabled st} \<and>
           distinct (map fst (extraction_results r)))) \<and>
   (path_exists B path \<and> extraction_settings (config s) = None \<longrightarrow>
      scan_pdf B s w path =
        (Inl KeyError, s, snd (extract_text_from_pdf B (config s) w path))) \<and>
   (path_exists B path \<and> extraction_settings (config s) = Some es \<and>
    (\<exists>(c, st) \<in> set es. get_enabled st \<and>
       (\<exists>p \<in> set (get_patterns st).
          re_findall B p (combined_text B (config s) w path) = Raises)) \<longrightarrow>
      scan_pdf B s w path =
        (Inl RegexError, s, snd (extract_text_from_pdf B (config s) w path)))"
proof (intro conjI impI)
  assume "\<not> path_exists B path"
  then show "scan_pdf B s w path = (Inl FileNotFoundError, s, w)" by (rule scan_pdf_missing)
next
  assume "path_exists B path"
  then show "fst (scan_pdf B s w path) \<noteq> Inl FileNotFoundError" by (rule scan_pdf_not_missing)
next
  assume "pdfplumber_pages B path = Raises \<and> convert_from_path B path = (\<lambda>d. Raises)"
  then show "fst (extract_text_from_pdf B (config s) w path) = []"
    by (simp add: acquisition_degrades)
next
  let ?text = "combined_text B (config s) w path"
  assume a: "path_exists B path \<and> extraction_settings (config s) = Some es \<and>
    (\<forall>(c, st) \<in> set es. get_enabled st \<longrightarrow>
       (\<forall>p \<in> set (get_patterns st). re_findall B p ?text \<noteq> Raises))"
  then obtain results where loop: "scan_loop B ?text es [] = Inr results"
    using scan_loop_total[of es B ?text "[]"] by blast
  let ?r = "\<lparr>pdf_path = path, extraction_results = results,
           total_pages = int (length (fst (extract_text_from_pdf B (config s) w path))),
           raw_text_preview = text_preview ?text\<rparr>"
  have "scan_pdf B s w path =
      (Inr ?r, s\<lparr>extracted_data := Some ?r\<rparr>, snd (extract_text_from_pdf B (config s) w path))"
    using a loop by (simp add: scan_pdf_succeeds)
  moreover have "fst ` set results = {c. \<exists>st. (c, st) \<in> set es \<and> get_enabled st}"
    using scan_loop_keys[OF loop] by simp
  moreover have "distinct (map fst results)"
    using scan_loop_distinct[OF loop] by simp
  ultimately show "\<exists>r. scan_pdf B s w path =
             (Inr r, s\<lparr>extracted_data := Some r\<rparr>,
              snd (extract_text_from_pdf B (config s) w path)) \<and>
           pdf_path r = path \<and>
           total_pages r = int (length (fst (extract_text_from_pdf B (config s) w path))) \<and>
           fst ` set (extraction_results r) = {c. \<exists>st. (c, st) \<in> set es \<and> get_enabled st} \<and>
           distinct (map fst (extraction_results r))"
    by (intro exI[of _ ?r]) simp
next
  assume "path_exists B path \<and> extraction_settings (config s) = None"
  then show "scan_pdf B s w path =
      (Inl KeyError, s, snd (extract_text_from_pdf B (config s) w path))"
    by (simp add: scan_pdf_no_sections)
next
  let ?text = "combined_text B (config s) w path"
  assume a: "path_exists B path \<and> extraction_settings (config s) = Some es \<and>
    (\<exists>(c, st) \<in> set es. get_enabled st \<and>
       (\<exists>p \<in> set (get_patterns st). re_findall B p ?text = Raises))"
  then have "scan_loop B ?text es [] = Inl RegexError"
    using scan_loop_raises[of es B ?text "[]"] by blast
  with a show "scan_pdf B s w path =
      (Inl RegexError, s, snd (extract_text_from_pdf B (config s) w path))"
    by (simp add: scan_pdf_loop_fails)
qed

theorem scan_outcome_witness:
  "\<not> path_exists (sample_backend Raises Raises) ''missing.pdf'' \<and>
   scan_pdf (sample_backend Raises Raises) (init_scanner sample_config) sample_world
     ''missing.pdf'' = (Inl FileNotFoundError, init_scanner sample_config, sample_world) \<and>
   path_exists (sample_backend Raises Raises) ''drawing.pdf'' \<and>
   pdfplumber_pages (sample_backend Raises Raises) ''drawing.pdf'' = Raises \<and>
   fst (extract_text_from_pdf (sample_backend Raises Raises) sample_config sample_world
     ''drawing.pdf'') = [] \<and>
   fst (scan_pdf (sample_backend Raises Raises) (init_scanner sample_config) sample_world
     ''drawing.pdf'') \<noteq> Inl FileNotFoundError \<and>
   fst (scan_pdf (sample_backend Raises Raises) (init_scanner sample_config) sample_world
     ''drawing.pdf'') \<noteq> Inl RegexError \<and>
   fst (scan_pdf (sample_backend Raises Raises) (init_scanner sample_config) sample_world
     ''drawing.pdf'') \<noteq> Inl KeyError \<and>
   extraction_settings (config (init_scanner no_sections_config)) = None \<and>
   scan_pdf (sample_backend Raises Raises) (init_scanner no_sections_config) sample_world
     ''drawing.pdf'' =
     (Inl KeyError, init_scanner no_sections_config,
      snd (extract_text_from_pdf (sample_backend Raises Raises)
             (config (init_scanner no_sections_config)) sample_world ''drawing.pdf'')) \<and>
   scan_pdf (sample_backend Raises Raises) (init_scanner invalid_pattern_config) sample_world
     ''drawing.pdf'' =
     (Inl RegexError, init_scanner invalid_pattern_config,
      snd (extract_text_from_pdf (sample_backend Raises Raises)
             (config (init_scanner invalid_pattern_config)) sample_world ''drawing.pdf''))"
proof -
  let ?B = "sample_backend Raises Raises"
  let ?s = "init_scanner sample_config"
  have m: "\<not> path_exists ?B ''missing.pdf''" by (simp add: sample_backend_def)
  have e: "path_exists ?B ''drawing.pdf''" by (simp add: sample_backend_def)
  have f: "pdfplumber_pages ?B ''drawing.pdf'' = Raises \<and>
      convert_from_path ?B ''drawing.pdf'' = (\<lambda>d. Raises)"
    by (simp add: sample_backend_def)
  have c: "extraction_settings (config ?s) = Some (the (extraction_settings sample_config))"
    by (simp add: init_scanner_def sample_config_def)
  have v: "\<forall>(c, st) \<in> set (the (extraction_settings sample_config)). get_enabled st \<longrightarrow>
       (\<forall>p \<in> set (get_patterns st).
          re_findall ?B p (combined_text ?B (config ?s) sample_world ''drawing.pdf'') \<noteq> Raises)"
    by (simp add: sample_config_def get_enabled_def get_patterns_def sample_backend_def
          sample_findall_def)
  note miss = scan_outcome[of ?B "''missing.pdf''" ?s sample_world "[]"]
  note here = scan_outcome[of ?B "''drawing.pdf''" ?s sample_world
      "the (extraction_settings sample_config)"]
  from miss m have 1: "scan_pdf ?B ?s sample_world ''missing.pdf'' =
      (Inl FileNotFoundError, ?s, sample_world)" by blast
  from here e have 2: "fst (scan_pdf ?B ?s sample_world ''drawing.pdf'') \<noteq> Inl FileNotFoundError"
    by blast
  from here f have 3: "fst (extract_text_from_pdf ?B (config ?s) sample_world ''drawing.pdf'') = []"
    by blast
  from here e c v obtain r where "scan_pdf ?B ?s sample_world ''drawing.pdf'' =
      (Inr r, ?s\<lparr>extracted_data := Some r\<rparr>,
       snd (extract_text_from_pdf ?B (config ?s) sample_world ''drawing.pdf''))"
    by blast
  then have 4: "fst (scan_pdf ?B ?s sample_world ''drawing.pdf'') \<noteq> Inl RegexError"
    and 5: "fst (scan_pdf ?B ?s sample_world ''drawing.pdf'') \<noteq> Inl KeyError"
    by simp_all
  from 3 have t: "fst (extract_text_from_pdf ?B sample_config sample_world ''drawing.pdf'') = []"
    by (simp add: init_scanner_def)
  let ?n = "init_scanner no_sections_config"
  let ?i = "init_scanner invalid_pattern_config"
  have n: "extraction_settings (config ?n) = None"
    by (simp add: init_scanner_def no_sections_config_def)
  note nosec = scan_outcome[of ?B "''drawing.pdf''" ?n sample_world "[]"]
  from nosec e n have 6: "scan_pdf ?B ?n sample_world ''drawing.pdf'' =
      (Inl KeyError, ?n, snd (extract_text_from_pdf ?B (config ?n) sample_world ''drawing.pdf''))"
    by blast
  have ci: "extraction_settings (config ?i) = Some (the (extraction_settings invalid_pattern_config))"
    by (simp add: init_scanner_def invalid_pattern_config_def)
  have x: "\<exists>(c, st) \<in> set (the (extraction_settings invalid_pattern_config)). get_enabled st \<and>
       (\<exists>p \<in> set (get_patterns st).
          re_findall ?B p (combined_text ?B (config ?i) sample_world ''drawing.pdf'') = Raises)"
    by (simp add: invalid_pattern_config_def get_enabled_def get_patterns_def sample_backend_def
          sample_findall_def)
  note bad = scan_outcome[of ?B "''drawing.pdf''" ?i sample_world
      "the (extraction_settings invalid_pattern_config)"]
  from bad e ci x have 7: "scan_pdf ?B ?i sample_world ''drawing.pdf'' =
      (Inl RegexError, ?i, snd (extract_text_from_pdf ?B (config ?i) sample_world ''drawing.pdf''))"
    by blast
  from m 1 e f 2 t 4 5 have first: "\<not> path_exists (sample_backend Raises Raises) ''missing.pdf'' \<and>
   scan_pdf (sample_backend Raises Raises) (init_scanner sample_config) sample_world
     ''missing.pdf'' = (Inl FileNotFoundError, init_scanner sample_config, sample_world) \<and>
   path_exists (sample_backend Raises Raises) ''drawing.pdf'' \<and>
   pdfplumber_pages (sample_backend Raises Raises) ''drawing.pdf'' = Raises \<and>
   fst (extract_text_from_pdf (sample_backend Raises Raises) sample_config sample_world
     ''drawing.pdf'') = [] \<and>
   fst (scan_pdf (sample_backend Raises Raises) (init_scanner sample_config) sample_world
     ''drawing.pdf'') \<noteq> Inl FileNotFoundError \<and>
   fst (scan_pdf (sample_backend Raises Raises) (init_scanner sample_config) sample_world
     ''drawing.pdf'') \<noteq> Inl RegexError \<and>
   fst (scan_pdf (sample_backend Raises Raises) (init_scanner sample_config) sample_world
     ''drawing.pdf'') \<noteq> Inl KeyError" by blast
  from first n 6 7 show ?thesis by blast
qed

text \<open>
  A scan of an existing path can fail. With the pattern \<^verbatim>\<open>(\<close> in an enabled
  category, the error of \<^verbatim>\<open>re.findall\<close> leaves \<^verbatim>\<open>scan_pdf\<close>; no record is stored.
\<close>

theorem scan_raises_on_invalid_pattern:
  "path_exists (sample_backend (Returns [Returns (Some sample_text)]) Raises) ''drawing.pdf'' \<and>
   scan_pdf (sample_backend (Returns [Returns (Some sample_text)]) Raises)
     (init_scanner invalid_pattern_config) sample_world ''drawing.pdf'' =
     (Inl RegexError, init_scanner invalid_pattern_config, sample_world)"
  by code_simp

section \<open>Text acquisition: which method is used\<close>

lemma plumber_loop_filter:
  "plumber_loop pages acc = acc @ filter (\<lambda>t. t \<noteq> []) (map text_of_page (produced pages))"
  by (induction pages acc rule: plumber_loop.induct) (simp_all add: text_of_page_def)

lemma plumber_extraction_filter:
  "plumber_extraction B path = filter (\<lambda>t. t \<noteq> []) (text_layer_texts B path)"
  by (simp add: plumber_extraction_def text_layer_texts_def plumber_loop_filter
           split: outcome.splits)

lemma ocr_loop_filter:
  "ocr_loop B cfg imgs acc =
     acc @ filter (\<lambda>t. strip t \<noteq> []) (produced (map (ocr_page B cfg) imgs))"
  by (induction imgs arbitrary: acc) (simp_all split: outcome.splits)

lemma ocr_extraction_filter:
  "fst (ocr_extraction B cfg w path) = filter (\<lambda>t. strip t \<noteq> []) (ocr_texts B cfg path)"
  by (simp add: ocr_extraction_def ocr_texts_def ocr_loop_filter Let_def split: outcome.splits)

lemma ocr_extraction_calls:
  "ocr_settings cfg = Some ocr \<Longrightarrow> dpi ocr = Some d \<Longrightarrow>
   rasterizer_calls (snd (ocr_extraction B cfg w path)) = rasterizer_calls w @ [(path, d)]"
  by (simp add: ocr_extraction_def Let_def split: outcome.splits)

lemma extract_text_accepted:
  "text_layer_accepted B path \<Longrightarrow>
   extract_text_from_pdf B cfg w path = (plumber_extraction B path, w)"
  by (auto simp: extract_text_from_pdf_def text_layer_accepted_def Let_def strip_def)

lemma extract_text_fallback:
  "\<not> text_layer_accepted B path \<Longrightarrow>
   extract_text_from_pdf B cfg w path = ocr_extraction B cfg w path"
  by (auto simp: extract_text_from_pdf_def text_layer_accepted_def Let_def)

text \<open>
  Claim C1, as the code has it. The test is on the length of the joined text after
  \<^verbatim>\<open>strip()\<close>, which removes whitespace at the two ends only. When that length
  exceeds 50, acquisition returns the non-empty page texts of the text layer and
  leaves the world as it was, so the rasterizer is not called. Otherwise the result
  is that of the OCR method started with no text: the texts of the text layer are
  dropped, and when a dpi is configured the rasterizer is called with it.
\<close>

theorem text_layer_threshold:
  "plumber_extraction B path = filter (\<lambda>t. t \<noteq> []) (text_layer_texts B path) \<and>
   (50 < length (strip (join '' '' (plumber_extraction B path))) \<longrightarrow>
      extract_text_from_pdf B cfg w path = (plumber_extraction B path, w)) \<and>
   (\<not> 50 < length (strip (join '' '' (plumber_extraction B path))) \<longrightarrow>
      extract_text_from_pdf B cfg w path = ocr_extraction B cfg w path \<and>
      fst (extract_text_from_pdf B cfg w path) =
        filter (\<lambda>t. strip t \<noteq> []) (ocr_texts B cfg path) \<and>
      (ocr_settings cfg = Some ocr \<and> dpi ocr = Some d \<longrightarrow>
         rasterizer_calls (snd (extract_text_from_pdf B cfg w path)) =
           rasterizer_calls w @ [(path, d)]))"
proof (intro conjI impI)
  show "plumber_extraction B path = filter (\<lambda>t. t \<noteq> []) (text_layer_texts B path)"
    by (rule plumber_extraction_filter)
next
  assume "50 < length (strip (join '' '' (plumber_extraction B path)))"
  then show "extract_text_from_pdf B cfg w path = (plumber_extraction B path, w)"
    by (simp add: extract_text_accepted text_layer_accepted_def)
next
  assume n: "\<not> 50 < length (strip (join '' '' (plumber_extraction B path)))"
  then show fb: "extract_text_from_pdf B cfg w path = ocr_extraction B cfg w path"
    by (simp add: extract_text_fallback text_layer_accepted_def)
  show "fst (extract_text_from_pdf B cfg w path) =
      filter (\<lambda>t. strip t \<noteq> []) (ocr_texts B cfg path)"
    by (simp add: fb ocr_extraction_filter)
  assume "ocr_settings cfg = Some ocr \<and> dpi ocr = Some d"
  then show "rasterizer_calls (snd (extract_text_from_pdf B cfg w path)) =
      rasterizer_calls w @ [(path, d)]"
    by (simp add: fb ocr_extraction_calls)
qed

lemma sample_text_layer:
  "plumber_extraction (sample_backend (Returns [Returns (Some sample_text)]) imgs) ''drawing.pdf'' =
     [sample_text]"
  by (simp add: plumber_extraction_def sample_backend_def sample_text_def)

lemma sample_text_length: "length (strip (join '' '' [sample_text])) = 55"
  by code_simp

theorem text_layer_threshold_witness:
  "50 < length (strip (join '' '' (plumber_extraction
      (sample_backend (Returns [Returns (Some sample_text)]) (Returns [''scan'']))
      ''drawing.pdf''))) \<and>
   extract_text_from_pdf (sample_backend (Returns [Returns (Some sample_text)]) (Returns [''scan'']))
      sample_config sample_world ''drawing.pdf'' = ([sample_text], sample_world) \<and>
   \<not> 50 < length (strip (join '' '' (plumber_extraction
      (sample_backend (Returns [Returns (Some ''P-101'')]) (Returns [''scan'']))
      ''drawing.pdf''))) \<and>
   ocr_settings sample_config = Some sample_ocr_settings \<and> dpi sample_ocr_settings = Some 300 \<and>
   rasterizer_calls (snd (extract_text_from_pdf
      (sample_backend (Returns [Returns (Some ''P-101'')]) (Returns [''scan'']))
      sample_config sample_world ''drawing.pdf'')) = [(''drawing.pdf'', 300)]"
proof -
  let ?B = "sample_backend (Returns [Returns (Some sample_text)]) (Returns [''scan''])"
  let ?C = "sample_backend (Returns [Returns (Some ''P-101'')]) (Returns [''scan''])"
  have a: "50 < length (strip (join '' '' (plumber_extraction ?B ''drawing.pdf'')))"
    by (simp only: sample_text_layer sample_text_length)
  have b: "\<not> 50 < length (strip (join '' '' (plumber_extraction ?C ''drawing.pdf'')))"
    by code_simp
  have c: "ocr_settings sample_config = Some sample_ocr_settings"
    by (simp add: sample_config_def)
  have d: "dpi sample_ocr_settings = Some 300"
    by (simp add: sample_ocr_settings_def)
  from text_layer_threshold[of ?B "''drawing.pdf''" sample_config sample_world] a
  have "extract_text_from_pdf ?B sample_config sample_world ''drawing.pdf'' =
      (plumber_extraction ?B ''drawing.pdf'', sample_world)"
    by blast
  then have 1: "extract_text_from_pdf ?B sample_config sample_world ''drawing.pdf'' =
      ([sample_text], sample_world)"
    by (simp only: sample_text_layer)
  from text_layer_threshold[of ?C "''drawing.pdf''" sample_config sample_world
      sample_ocr_settings 300] b c d
  have "rasterizer_calls (snd (extract_text_from_pdf ?C sample_config sample_world
      ''drawing.pdf'')) = rasterizer_calls sample_world @ [(''drawing.pdf'', 300)]"
    by blast
  then have 2: "rasterizer_calls (snd (extract_text_from_pdf ?C sample_config sample_world
      ''drawing.pdf'')) = [(''drawing.pdf'', 300)]"
    by (simp add: sample_world_def)
  from a 1 b c d 2 show ?thesis by blast
qed

text \<open>
  The threshold is not a count of non-whitespace characters. The joined text of the
  sample drawing has 47 characters that are not whitespace, which does not exceed 50,
  yet acquisition returns the page of the text layer and leaves the world as it was,
  where the OCR method would have called the rasterizer and returned the OCR text.
\<close>

theorem threshold_counts_inner_whitespace:
  "\<not> 50 < non_whitespace_length (join '' '' (plumber_extraction
      (sample_backend (Returns [Returns (Some sample_text)]) (Returns [''scan'']))
      ''drawing.pdf'')) \<and>
   extract_text_from_pdf (sample_backend (Returns [Returns (Some sample_text)]) (Returns [''scan'']))
      sample_config sample_world ''drawing.pdf'' = ([sample_text], sample_world) \<and>
   ocr_extraction (sample_backend (Returns [Returns (Some sample_text)]) (Returns [''scan'']))
      sample_config sample_world ''drawing.pdf'' =
     ([''scan''], \<lparr>rasterizer_calls = [(''drawing.pdf'', 300)], files = []\<rparr>)"
  by code_simp

section \<open>The page count of a scan record\<close>

lemma strip_Nil_iff: "strip s = [] \<longleftrightarrow> (\<forall>c \<in> set s. isspace c)"
proof
  assume "strip s = []"
  then have all: "\<forall>c \<in> set (dropWhile isspace s). isspace c"
    by (simp add: strip_def)
  have "dropWhile isspace s = []"
  proof (rule ccontr)
    assume ne: "dropWhile isspace s \<noteq> []"
    then have "\<not> isspace (hd (dropWhile isspace s))" by (rule hd_dropWhile)
    moreover from ne have "hd (dropWhile isspace s) \<in> set (dropWhile isspace s)" by simp
    ultimately show False using all by blast
  qed
  then show "\<forall>c \<in> set s. isspace c" by simp
next
  assume "\<forall>c \<in> set s. isspace c"
  then have d: "dropWhile isspace s = []" by simp
  show "strip s = []" unfolding strip_def d by simp
qed

lemma isspace_space: "isspace CHR '' ''"
  by (simp add: isspace_def)

lemma set_join: "set (join sep texts) \<subseteq> set sep \<union> \<Union> (set ` set texts)"
  by (induction sep texts rule: join.induct) auto

lemma join_blank:
  assumes "\<forall>t \<in> set texts. strip t = []"
  shows "strip (join '' '' texts) = []"
proof -
  have "isspace c" if "c \<in> set (join '' '' texts)" for c
  proof -
    from that set_join[of "'' ''" texts]
    consider "c = CHR '' ''" | t where "t \<in> set texts" "c \<in> set t" by auto
    then show ?thesis
    proof cases
      case 1
      then show ?thesis by (simp add: isspace_space)
    next
      case 2
      with assms show ?thesis by (auto simp: strip_Nil_iff)
    qed
  qed
  then show ?thesis by (simp add: strip_Nil_iff)
qed

lemma blank_not_accepted:
  assumes "\<forall>t \<in> set (text_layer_texts B path). strip t = []"
  shows "\<not> text_layer_accepted B path"
proof -
  from assms have "\<forall>t \<in> set (plumber_extraction B path). strip t = []"
    by (simp add: plumber_extraction_filter)
  then have "strip (join '' '' (plumber_extraction B path)) = []" by (rule join_blank)
  then show ?thesis by (simp add: text_layer_accepted_def)
qed

text \<open>
  Claim C9, as the code has it. The page count of a scan record is the number of
  texts the acquisition kept. When the text layer is accepted these are the pages,
  up to the first page that raised, whose text is not the empty string (a page of
  whitespace counts); otherwise they are the rasterized pages, up to the first that
  raised, whose recognised text has a character that is not whitespace. When every
  page of both methods gives an empty or whitespace-only text, the count is 0.
\<close>

theorem total_pages_counts_kept_texts:
  assumes "scan_pdf B s w path = (Inr r, s', w')"
  shows "total_pages r =
           (if text_layer_accepted B path
            then int (nonempty_count (text_layer_texts B path))
            else int (nonblank_count (ocr_texts B (config s) path))) \<and>
         ((\<forall>t \<in> set (text_layer_texts B path) \<union> set (ocr_texts B (config s) path).
             strip t = []) \<longrightarrow> total_pages r = 0)"
proof -
  from scan_pdf_Inr(3)[OF assms]
  have tp: "total_pages r = int (length (fst (extract_text_from_pdf B (config s) w path)))"
    by (metis scan_record.select_convs(3))
  have eq: "total_pages r =
           (if text_layer_accepted B path
            then int (nonempty_count (text_layer_texts B path))
            else int (nonblank_count (ocr_texts B (config s) path)))"
  proof (cases "text_layer_accepted B path")
    case True
    then show ?thesis
      by (simp add: tp extract_text_accepted plumber_extraction_filter nonempty_count_def)
  next
    case False
    then show ?thesis
      by (simp add: tp extract_text_fallback ocr_extraction_filter nonblank_count_def)
  qed
  have zero: "total_pages r = 0"
    if blank: "\<forall>t \<in> set (text_layer_texts B path) \<union> set (ocr_texts B (config s) path).
             strip t = []"
  proof -
    from blank have "\<not> text_layer_accepted B path" by (simp add: blank_not_accepted)
    moreover from blank have "filter (\<lambda>t. strip t \<noteq> []) (ocr_texts B (config s) path) = []"
      by (simp add: filter_empty_conv)
    ultimately show ?thesis using eq by (simp add: nonblank_count_def)
  qed
  from eq zero show ?thesis by blast
qed

theorem total_pages_counts_kept_texts_witness:
  "scan_pdf (sample_backend (Returns [Returns None, Returns (Some '' '')]) (Returns [blank_page_text]))
     (init_scanner sample_config) sample_world ''drawing.pdf'' =
     (Inr empty_record, \<lparr>config = sample_config, extracted_data = Some empty_record\<rparr>,
      \<lparr>rasterizer_calls = [(''drawing.pdf'', 300)], files = []\<rparr>) \<and>
   text_layer_texts (sample_backend (Returns [Returns None, Returns (Some '' '')])
     (Returns [blank_page_text])) ''drawing.pdf'' = ['''', '' ''] \<and>
   ocr_texts (sample_backend (Returns [Returns None, Returns (Some '' '')])
     (Returns [blank_page_text])) sample_config ''drawing.pdf'' = [blank_page_text] \<and>
   strip '''' = [] \<and> strip '' '' = [] \<and> strip blank_page_text = [] \<and>
   total_pages empty_record = 0"
proof -
  let ?B = "sample_backend (Returns [Returns None, Returns (Some '' '')]) (Returns [blank_page_text])"
  let ?s = "init_scanner sample_config"
  have scan: "scan_pdf ?B ?s sample_world ''drawing.pdf'' =
     (Inr empty_record, \<lparr>config = sample_config, extracted_data = Some empty_record\<rparr>,
      \<lparr>rasterizer_calls = [(''drawing.pdf'', 300)], files = []\<rparr>)"
    by code_simp
  have t1: "text_layer_texts ?B ''drawing.pdf'' = ['''', '' '']"
    by code_simp
  have t2: "ocr_texts ?B (config ?s) ''drawing.pdf'' = [blank_page_text]"
    by code_simp
  have b: "strip '''' = [] \<and> strip '' '' = [] \<and> strip blank_page_text = []"
    by code_simp
  from b t1 t2 have blank:
    "\<forall>t \<in> set (text_layer_texts ?B ''drawing.pdf'') \<union> set (ocr_texts ?B (config ?s) ''drawing.pdf'').
       strip t = []"
    by simp
  from total_pages_counts_kept_texts[OF scan] blank have z: "total_pages empty_record = 0"
    by blast
  from t2 have t2': "ocr_texts ?B sample_config ''drawing.pdf'' = [blank_page_text]"
    by (simp add: init_scanner_def)
  from scan t1 t2' b z show ?thesis by blast
qed

text \<open>
  The page count is not the number of pages with a non-empty text under either
  reading of non-empty. First drawing: no text layer, and the OCR engine returns a
  form feed for the one page; that text is not the empty string, but the page count
  is 0. Second drawing: a text layer with a page holding one space and a page
  holding the sample text; one page has a character that is not whitespace, but the
  page count is 2.
\<close>

theorem total_pages_not_nonempty_pages:
  "\<not> text_layer_accepted (sample_backend (Returns [Returns None]) (Returns [blank_page_text]))
      ''drawing.pdf'' \<and>
   nonempty_count (ocr_texts (sample_backend (Returns [Returns None]) (Returns [blank_page_text]))
      sample_config ''drawing.pdf'') = 1 \<and>
   map_option total_pages (scan_record_of
      (sample_backend (Returns [Returns None]) (Returns [blank_page_text]))
      (init_scanner sample_config) sample_world ''drawing.pdf'') = Some 0 \<and>
   text_layer_accepted
      (sample_backend (Returns [Returns (Some '' ''), Returns (Some sample_text)]) Raises)
      ''drawing.pdf'' \<and>
   nonblank_count (text_layer_texts
      (sample_backend (Returns [Returns (Some '' ''), Returns (Some sample_text)]) Raises)
      ''drawing.pdf'') = 1 \<and>
   map_option total_pages (scan_record_of
      (sample_backend (Returns [Returns (Some '' ''), Returns (Some sample_text)]) Raises)
      (init_scanner sample_config) sample_world ''drawing.pdf'') = Some 2"
  by code_simp

section \<open>The text preview\<close>

lemma long_scan:
  "scan_pdf (sample_backend (Returns [Returns (Some long_page)]) Raises)
     (init_scanner sample_config) sample_world ''drawing.pdf'' =
   (Inr long_record, \<lparr>config = sample_config, extracted_data = Some long_record\<rparr>, sample_world)"
  by code_simp

lemma long_combined_text:
  "combined_text (sample_backend (Returns [Returns (Some long_page)]) Raises)
     sample_config sample_world ''drawing.pdf'' = long_page"
  by code_simp

text \<open>
  Claim C7, as the code has it. The preview of a scan record is the combined text
  when that has at most 500 characters; when it has more, the preview is its first
  500 characters followed by three dots. In both cases the first 500 characters of
  the preview are the first 500 characters of the combined text.
\<close>

theorem preview_of_combined_text:
  assumes "scan_pdf B s w path = (Inr r, s', w')"
  shows "raw_text_preview r =
           (if 500 < length (combined_text B (config s) w path)
            then take 500 (combined_text B (config s) w path) @ ''...''
            else combined_text B (config s) w path) \<and>
         take 500 (raw_text_preview r) = take 500 (combined_text B (config s) w path) \<and>
         length (raw_text_preview r) \<le> 503"
proof -
  from scan_pdf_Inr(3)[OF assms]
  have "raw_text_preview r = text_preview (combined_text B (config s) w path)"
    by (metis scan_record.select_convs(4))
  then show ?thesis by (simp add: text_preview_def)
qed

theorem preview_of_combined_text_witness:
  "scan_pdf (sample_backend (Returns [Returns (Some long_page)]) Raises)
     (init_scanner sample_config) sample_world ''drawing.pdf'' =
     (Inr long_record, \<lparr>config = sample_config, extracted_data = Some long_record\<rparr>,
      sample_world) \<and>
   raw_text_preview long_record = take 500 long_page @ ''...'' \<and>
   take 500 (raw_text_preview long_record) = take 500 long_page \<and>
   length (raw_text_preview long_record) \<le> 503"
proof -
  have l: "500 < length long_page" by (simp add: long_page_def)
  have c: "config (init_scanner sample_config) = sample_config" by (simp add: init_scanner_def)
  from preview_of_combined_text[OF long_scan] l long_scan show ?thesis
    by (simp only: c long_combined_text if_True) simp
qed

text \<open>
  For a combined text of 501 characters the preview is not the first 500 characters
  of it: three dots follow them.
\<close>

theorem preview_has_ellipsis:
  "map_option raw_text_preview (scan_record_of
      (sample_backend (Returns [Returns (Some long_page)]) Raises)
      (init_scanner sample_config) sample_world ''drawing.pdf'') =
     Some (replicate 500 CHR ''a'' @ ''...'') \<and>
   take 500 (combined_text (sample_backend (Returns [Returns (Some long_page)]) Raises)
      sample_config sample_world ''drawing.pdf'') = replicate 500 CHR ''a'' \<and>
   replicate 500 CHR ''a'' @ ''...'' \<noteq> replicate 500 CHR ''a''"
  by code_simp

section \<open>Export before and after a scan\<close>

text \<open>
  Claim C4. While no scan record is stored, as in a new scanner, both exports fail
  with \<open>ValueError\<close> and leave the world, and so every file, as it was. After a scan
  that returned a record neither export fails with \<open>ValueError\<close>, and when the output
  file can be opened both write their serialisation of that record.
\<close>

theorem export_needs_scan:
  "(extracted_data s0 = None \<longrightarrow>
      export_to_csv B s0 w0 out = (Inl ValueError, w0) \<and>
      export_to_json B s0 w0 out = (Inl ValueError, w0)) \<and>
   export_to_csv B (init_scanner cfg) w0 out = (Inl ValueError, w0) \<and>
   export_to_json B (init_scanner cfg) w0 out = (Inl ValueError, w0) \<and>
   (scan_pdf B s w path = (Inr r, s', w') \<longrightarrow>
      fst (export_to_csv B s' w0 out) \<noteq> Inl ValueError \<and>
      fst (export_to_json B s' w0 out) \<noteq> Inl ValueError \<and>
      (can_open_for_write B out \<longrightarrow>
         export_to_csv B s' w0 out =
           (Inr (), w0\<lparr>files := AList.update out (to_csv B (csv_rows r)) (files w0)\<rparr>) \<and>
         export_to_json B s' w0 out =
           (Inr (), w0\<lparr>files := AList.update out (json_dump B r) (files w0)\<rparr>)))"
proof (intro conjI impI)
  assume "scan_pdf B s w path = (Inr r, s', w')"
  then have e: "extracted_data s' = Some r" using scan_pdf_Inr(4) by fastforce
  show "fst (export_to_csv B s' w0 out) \<noteq> Inl ValueError"
    and "fst (export_to_json B s' w0 out) \<noteq> Inl ValueError"
    by (simp_all add: export_to_csv_def export_to_json_def e)
  assume "can_open_for_write B out"
  then show "export_to_csv B s' w0 out =
           (Inr (), w0\<lparr>files := AList.update out (to_csv B (csv_rows r)) (files w0)\<rparr>)"
    and "export_to_json B s' w0 out =
           (Inr (), w0\<lparr>files := AList.update out (json_dump B r) (files w0)\<rparr>)"
    by (simp_all add: export_to_csv_def export_to_json_def e)
qed (simp_all add: export_to_csv_def export_to_json_def init_scanner_def)

theorem export_needs_scan_witness:
  "extracted_data (init_scanner sample_config) = None \<and>
   export_to_csv (sample_backend (Returns [Returns (Some sample_text)]) Raises)
     (init_scanner sample_config) sample_world ''out.csv'' = (Inl ValueError, sample_world) \<and>
   export_to_json (sample_backend (Returns [Returns (Some sample_text)]) Raises)
     (init_scanner sample_config) sample_world ''out.csv'' = (Inl ValueError, sample_world) \<and>
   can_open_for_write (sample_backend (Returns [Returns (Some sample_text)]) Raises) ''out.csv'' \<and>
   fst (export_to_csv (sample_backend (Returns [Returns (Some sample_text)]) Raises)
     \<lparr>config = sample_config, extracted_data = Some sample_record\<rparr> sample_world ''out.csv'') =
     Inr () \<and>
   fst (export_to_json (sample_backend (Returns [Returns (Some sample_text)]) Raises)
     \<lparr>config = sample_config, extracted_data = Some sample_record\<rparr> sample_world ''out.csv'') =
     Inr ()"
proof -
  let ?B = "sample_backend (Returns [Returns (Some sample_text)]) Raises"
  let ?s = "init_scanner sample_config"
  let ?s' = "\<lparr>config = sample_config, extracted_data = Some sample_record\<rparr>"
  have n: "extracted_data ?s = None" by (simp add: init_scanner_def)
  have o: "can_open_for_write ?B ''out.csv''" by (simp add: sample_backend_def)
  note inst = export_needs_scan[of ?s ?B sample_world "''out.csv''" sample_config ?s sample_world
      "''drawing.pdf''" sample_record ?s' sample_world]
  from inst n have 1: "export_to_csv ?B ?s sample_world ''out.csv'' = (Inl ValueError, sample_world)"
    and 2: "export_to_json ?B ?s sample_world ''out.csv'' = (Inl ValueError, sample_world)"
    by blast+
  from inst sample_scan o have
    "export_to_csv ?B ?s' sample_world ''out.csv'' =
       (Inr (), sample_world\<lparr>files := AList.update ''out.csv'' (to_csv ?B (csv_rows sample_record))
          (files sample_world)\<rparr>)"
    and "export_to_json ?B ?s' sample_world ''out.csv'' =
       (Inr (), sample_world\<lparr>files := AList.update ''out.csv'' (json_dump ?B sample_record)
          (files sample_world)\<rparr>)"
    by blast+
  then have 3: "fst (export_to_csv ?B ?s' sample_world ''out.csv'') = Inr ()"
    and 4: "fst (export_to_json ?B ?s' sample_world ''out.csv'') = Inr ()"
    by simp_all
  from n 1 2 o 3 4 show ?thesis by blast
qed

section \<open>Scanning the same document twice\<close>

lemma ocr_extraction_world:
  "fst (ocr_extraction B cfg w path) = fst (ocr_extraction B cfg w0 path)"
  by (simp add: ocr_extraction_filter)

lemma extract_text_world:
  "fst (extract_text_from_pdf B cfg w path) = fst (extract_text_from_pdf B cfg w0 path)"
  by (cases "text_layer_accepted B path")
     (simp_all add: extract_text_accepted extract_text_fallback ocr_extraction_filter)

lemma combined_text_world: "combined_text B cfg w path = combined_text B cfg w0 path"
  by (simp add: combined_text_def extract_text_world[of B cfg w path w0])

text \<open>
  Claim C6. When a scan returns a record, a second scan of the same path, run on the
  scanner and the world the first scan left and with the same libraries, returns the
  same record; in particular the extraction results are identical.
\<close>

theorem scan_twice_same_results:
  assumes "scan_pdf B s w path = (Inr r1, s1, w1)"
  shows "\<exists>r2 s2 w2. scan_pdf B s1 w1 path = (Inr r2, s2, w2) \<and>
           extraction_results r2 = extraction_results r1 \<and> r2 = r1"
proof -
  from scan_pdf_Inr[OF assms] obtain es where
    ex: "path_exists B path" and
    es: "extraction_settings (config s) = Some es" and
    loop: "scan_loop B (combined_text B (config s) w path) es [] = Inr (extraction_results r1)" and
    r1: "r1 = \<lparr>pdf_path = path, extraction_results = extraction_results r1,
              total_pages = int (length (fst (extract_text_from_pdf B (config s) w path))),
              raw_text_preview = text_preview (combined_text B (config s) w path)\<rparr>" and
    s1: "s1 = s\<lparr>extracted_data := Some r1\<rparr>"
    by blast
  from s1 have c: "config s1 = config s" by simp
  have t: "combined_text B (config s1) w1 path = combined_text B (config s) w path"
    by (simp only: c combined_text_world[of B "config s" w1 path w])
  have l: "fst (extract_text_from_pdf B (config s1) w1 path) =
      fst (extract_text_from_pdf B (config s) w path)"
    by (simp only: c extract_text_world[of B "config s" w1 path w])
  from es c have es1: "extraction_settings (config s1) = Some es" by simp
  from loop t have loop1:
    "scan_loop B (combined_text B (config s1) w1 path) es [] = Inr (extraction_results r1)"
    by simp
  from scan_pdf_succeeds[OF ex es1 loop1] r1 t l
  have "scan_pdf B s1 w1 path =
      (Inr r1, s1\<lparr>extracted_data := Some r1\<rparr>, snd (extract_text_from_pdf B (config s1) w1 path))"
    by simp
  then show ?thesis by blast
qed

theorem scan_twice_same_results_witness:
  "scan_pdf (sample_backend (Returns [Returns (Some sample_text)]) Raises)
     (init_scanner sample_config) sample_world ''drawing.pdf'' =
     (Inr sample_record, \<lparr>config = sample_config, extracted_data = Some sample_record\<rparr>,
      sample_world) \<and>
   fst (scan_pdf (sample_backend (Returns [Returns (Some sample_text)]) Raises)
     \<lparr>config = sample_config, extracted_data = Some sample_record\<rparr> sample_world
     ''drawing.pdf'') = Inr sample_record"
proof -
  from scan_twice_same_results[OF sample_scan] obtain s2 w2 where
    "scan_pdf (sample_backend (Returns [Returns (Some sample_text)]) Raises)
       \<lparr>config = sample_config, extracted_data = Some sample_record\<rparr> sample_world
       ''drawing.pdf'' = (Inr sample_record, s2, w2)"
    by blast
  then show ?thesis using sample_scan by simp
qed

section \<open>Configuration changes and the stored record\<close>

subsection \<open>Objects reached and objects kept\<close>

lemma reach_trans: "c \<in> reach h b \<Longrightarrow> b \<in> reach h a \<Longrightarrow> c \<in> reach h a"
proof (induction rule: reach.induct)
  case reach_root
  then show ?case .
next
  case (reach_step b' c')
  then show ?case by (blast intro: reach.reach_step)
qed

lemma reach_subset:
  assumes "a \<in> S"
    and "\<And>b c. b \<in> S \<Longrightarrow> b < length h \<Longrightarrow> PRef c \<in> set (values_of (h ! b)) \<Longrightarrow> c \<in> S"
  shows "reach h a \<subseteq> S"
proof
  fix x
  assume "x \<in> reach h a"
  then show "x \<in> S"
    by (induction rule: reach.induct) (use assms in blast)+
qed

lemma closed_iff:
  "closed h \<longleftrightarrow>
     (\<forall>ob \<in> set h. \<forall>v \<in> set (values_of ob). case v of PRef c \<Rightarrow> c < length h | _ \<Rightarrow> True)"
  by (simp add: closed_def list_all_iff)

lemma closedD:
  assumes "closed h" and "b < length h" and "PRef c \<in> set (values_of (h ! b))"
  shows "c < length h"
proof -
  from assms(2) have "h ! b \<in> set h" by simp
  with assms(1,3) have "case PRef c of PRef c \<Rightarrow> c < length h | _ \<Rightarrow> True"
    unfolding closed_iff by blast
  then show ?thesis by simp
qed

lemma closedI:
  assumes "\<And>b c. b < length h \<Longrightarrow> PRef c \<in> set (values_of (h ! b)) \<Longrightarrow> c < length h"
  shows "closed h"
  unfolding closed_iff
proof (intro ballI)
  fix ob v
  assume "ob \<in> set h" and v: "v \<in> set (values_of ob)"
  then obtain b where b: "b < length h" and ob: "h ! b = ob"
    by (auto simp: in_set_conv_nth)
  show "case v of PRef c \<Rightarrow> c < length h | _ \<Rightarrow> True"
  proof (cases v)
    case (PRef c)
    with assms[OF b, of c] v ob show ?thesis by simp
  qed simp_all
qed

lemma reach_bound:
  assumes "closed h" and "a < length h" and "b \<in> reach h a"
  shows "b < length h"
  using assms(3)
proof (induction rule: reach.induct)
  case reach_root
  from assms(2) show ?case .
next
  case (reach_step b c)
  with closedD[OF assms(1)] show ?case by blast
qed

text \<open>Two stores that hold the same object at every place of a set.\<close>

lemma reach_kept_sub:
  assumes "\<And>b. b \<in> reach h a \<Longrightarrow> b < length h \<Longrightarrow> b < length h' \<and> h' ! b = h ! b"
  shows "reach h a \<subseteq> reach h' a"
proof
  fix x
  assume "x \<in> reach h a"
  then show "x \<in> reach h' a"
  proof (induction rule: reach.induct)
    case reach_root
    show ?case by (rule reach.reach_root)
  next
    case (reach_step b c)
    from assms[OF reach_step.hyps(1,2)] reach_step.hyps(3)
    have "b < length h'" and "PRef c \<in> set (values_of (h' ! b))" by simp_all
    with reach_step.IH show ?case by (blast intro: reach.reach_step)
  qed
qed

lemma reach_kept_sup:
  assumes "closed h" and "a < length h"
    and "\<And>b. b \<in> reach h a \<Longrightarrow> b < length h \<Longrightarrow> b < length h' \<and> h' ! b = h ! b"
  shows "reach h' a \<subseteq> reach h a"
proof
  fix x
  assume "x \<in> reach h' a"
  then show "x \<in> reach h a"
  proof (induction rule: reach.induct)
    case reach_root
    show ?case by (rule reach.reach_root)
  next
    case (reach_step b c)
    from reach_bound[OF assms(1,2) reach_step.IH] have b: "b < length h" .
    from assms(3)[OF reach_step.IH b] reach_step.hyps(3)
    have "PRef c \<in> set (values_of (h ! b))" by simp
    with reach_step.IH b show ?case by (blast intro: reach.reach_step)
  qed
qed

lemma reach_kept:
  assumes "closed h" and "a < length h"
    and "\<And>b. b \<in> reach h a \<Longrightarrow> b < length h \<Longrightarrow> b < length h' \<and> h' ! b = h ! b"
  shows "reach h' a = reach h a"
  using reach_kept_sub[of h a h'] reach_kept_sup[of h a h'] assms by blast

lemma snapshot_kept_val:
  assumes "closed h"
  shows "(\<And>a. v = PRef a \<Longrightarrow>
            a < length h \<and> (\<forall>b \<in> reach h a. b < length h' \<and> h' ! b = h ! b)) \<Longrightarrow>
         snapshot n h' v = snapshot n h v"
proof (induction n arbitrary: v)
  case 0
  show ?case by (cases v) simp_all
next
  case (Suc n)
  show ?case
  proof (cases v)
    case (PRef a)
    from Suc.prems[OF PRef] have a: "a < length h"
      and kept: "\<forall>b \<in> reach h a. b < length h' \<and> h' ! b = h ! b" by simp_all
    from kept have a': "a < length h'" and same: "h' ! a = h ! a"
      using reach.reach_root[of a h] by blast+
    have sub: "snapshot n h' x = snapshot n h x" if x: "x \<in> set (values_of (h ! a))" for x
    proof (rule Suc.IH)
      fix c
      assume c: "x = PRef c"
      with x have step: "c \<in> reach h a"
        using reach.reach_step[OF reach.reach_root a] by blast
      from c x closedD[OF assms a] have "c < length h" by blast
      moreover have "\<forall>b \<in> reach h c. b < length h' \<and> h' ! b = h ! b"
        using kept reach_trans[OF _ step] by blast
      ultimately show "c < length h \<and> (\<forall>b \<in> reach h c. b < length h' \<and> h' ! b = h ! b)"
        by simp
    qed
    show ?thesis
    proof (cases "h ! a")
      case (PDict d)
      have "map (\<lambda>(k, v). (k, snapshot n h' v)) d = map (\<lambda>(k, v). (k, snapshot n h v)) d"
      proof (rule map_cong[OF refl])
        fix kv
        assume "kv \<in> set d"
        then have "snd kv \<in> set (values_of (h ! a))" by (simp add: PDict values_of_def)
        from sub[OF this] show "(case kv of (k, v) \<Rightarrow> (k, snapshot n h' v)) =
            (case kv of (k, v) \<Rightarrow> (k, snapshot n h v))"
          by (cases kv) simp
      qed
      with PRef a a' same PDict show ?thesis by simp
    next
      case (PList vs)
      have "map (snapshot n h') vs = map (snapshot n h) vs"
      proof (rule map_cong[OF refl])
        fix x
        assume "x \<in> set vs"
        then have "x \<in> set (values_of (h ! a))" by (simp add: PList values_of_def)
        from sub[OF this] show "snapshot n h' x = snapshot n h x" .
      qed
      with PRef a a' same PList show ?thesis by simp
    qed
  qed simp_all
qed

lemma snapshot_kept:
  assumes "closed h" and "a < length h"
    and "\<And>b. b \<in> reach h a \<Longrightarrow> b < length h' \<and> h' ! b = h ! b"
  shows "snapshot n h' (PRef a) = snapshot n h (PRef a)"
  using snapshot_kept_val[OF assms(1), of "PRef a" h' n] assms(2,3) by blast

subsection \<open>What the two configuration methods write\<close>

lemma dict_atD: "dict_at h v = Some (a, d) \<Longrightarrow> v = PRef a \<and> a < length h \<and> h ! a = PDict d"
  by (auto simp: dict_at_def split: pyval.splits if_splits pyobj.splits)

lemma list_atD: "list_at h v = Some (a, vs) \<Longrightarrow> v = PRef a \<and> a < length h \<and> h ! a = PList vs"
  by (auto simp: list_at_def split: pyval.splits if_splits pyobj.splits)

lemma dict_atI: "a < length h \<Longrightarrow> h ! a = PDict d \<Longrightarrow> dict_at h (PRef a) = Some (a, d)"
  by (simp add: dict_at_def)

lemma list_atI: "a < length h \<Longrightarrow> h ! a = PList vs \<Longrightarrow> list_at h (PRef a) = Some (a, vs)"
  by (simp add: list_at_def)

lemma subscriptD:
  "subscript h v key = Inr x \<Longrightarrow> \<exists>a d. dict_at h v = Some (a, d) \<and> map_of d key = Some x"
  by (auto simp: subscript_def split: option.splits)

lemma subscriptI:
  "dict_at h v = Some (a, d) \<Longrightarrow> map_of d key = Some x \<Longrightarrow> subscript h v key = Inr x"
  by (simp add: subscript_def)

lemma update_config_heap:
  assumes "update_config so new_config = (res, so')"
  shows "self_config so' = self_config so \<and> self_extracted_data so' = self_extracted_data so \<and>
     length (heap so') = length (heap so) \<and>
     (\<forall>b. b \<noteq> self_config so \<longrightarrow> heap so' ! b = heap so ! b)"
proof (cases "dict_at (heap so) (PRef (self_config so))")
  case None
  with assms have "so' = so" by (simp add: update_config_def)
  then show ?thesis by simp
next
  case (Some ad)
  obtain c d where ad: "ad = (c, d)" by (cases ad)
  from Some ad dict_atD have c: "c = self_config so" by blast
  from assms Some ad have "so' = so\<lparr>heap := (heap so)[c := PDict (foldl (\<lambda>d' (k, v). AList.update k v d') d new_config)]\<rparr>"
    by (simp add: update_config_def)
  with c show ?thesis by simp
qed

lemma append_pattern_existing:
  assumes "subscript (heap so) (PRef (self_config so)) ''extraction_settings'' = Inr es"
    and "dict_at (heap so) es = Some (a, d)"
    and "map_of d category = Some settings"
  shows "append_pattern so category pattern =
     (case subscript (heap so) settings ''patterns'' of
        Inl e \<Rightarrow> (Inl e, so)
      | Inr ps \<Rightarrow>
          (case list_at (heap so) ps of
             None \<Rightarrow> (Inl AttributeError, so)
           | Some (l, vs) \<Rightarrow>
               (Inr (), so\<lparr>heap := (heap so)[l := PList (vs @ [PStr pattern])]\<rparr>)))"
proof -
  from assms(2,3) have "subscript (heap so) es category = Inr settings"
    by (rule subscriptI)
  with assms(1) show ?thesis by (simp add: append_pattern_def)
qed

lemma add_new_category:
  assumes es: "subscript (heap so) (PRef (self_config so)) ''extraction_settings'' = Inr es"
    and ad: "dict_at (heap so) es = Some (a, d)"
    and new: "map_of d category = None"
  shows "add_custom_pattern so category pattern =
     (Inr (),
      so\<lparr>heap := (heap so @ [PList [PStr pattern],
                    PDict [(''enabled'', PBool True), (''patterns'', PRef (length (heap so)))]])
               [a := PDict (AList.update category (PRef (Suc (length (heap so)))) d)]\<rparr>)"
proof -
  let ?h = "heap so"
  let ?n = "length ?h"
  let ?nd = "PDict [(''enabled'', PBool True), (''patterns'', PRef ?n)]"
  let ?d' = "AList.update category (PRef (Suc ?n)) d"
  let ?h3 = "(?h @ [PList [], ?nd])[a := PDict ?d']"
  let ?so1 = "so\<lparr>heap := ?h3\<rparr>"
  let ?c = "self_config so"
  from dict_atD[OF ad] have esa: "es = PRef a" and a: "a < ?n" and ha: "?h ! a = PDict d"
    by simp_all
  from subscriptD[OF es] obtain c' cd where
    cd: "dict_at ?h (PRef ?c) = Some (c', cd)" and cde: "map_of cd ''extraction_settings'' = Some es"
    by blast
  from dict_atD[OF cd] have c: "?c < ?n" and hc: "?h ! ?c = PDict cd" and c': "c' = ?c"
    by simp_all
  have len: "length ?h3 = Suc (Suc ?n)" by simp
  have md': "map_of ?d' = (map_of d)(category \<mapsto> PRef (Suc ?n))"
    by (rule update_conv')
  have one: "subscript ?h3 (PRef ?c) ''extraction_settings'' = Inr es"
  proof (cases "?c = a")
    case True
    with hc ha have "cd = d" by simp
    with cde new have ne: "category \<noteq> ''extraction_settings''" by auto
    from True a have "?h3 ! ?c = PDict ?d'" by simp
    with c have "dict_at ?h3 (PRef ?c) = Some (?c, ?d')" by (simp add: dict_at_def)
    moreover from ne cde \<open>cd = d\<close> have "map_of ?d' ''extraction_settings'' = Some es"
      by (simp add: md')
    ultimately show ?thesis by (rule subscriptI)
  next
    case False
    with c hc have "?h3 ! ?c = PDict cd" by (simp add: nth_append)
    with c have "dict_at ?h3 (PRef ?c) = Some (?c, cd)" by (simp add: dict_at_def)
    from this cde show ?thesis by (rule subscriptI)
  qed
  have two: "subscript ?h3 es category = Inr (PRef (Suc ?n))"
  proof -
    from a have "?h3 ! a = PDict ?d'" by simp
    with a have "dict_at ?h3 es = Some (a, ?d')" by (simp add: dict_at_def esa)
    moreover have "map_of ?d' category = Some (PRef (Suc ?n))" by (simp add: md')
    ultimately show ?thesis by (rule subscriptI)
  qed
  have three: "subscript ?h3 (PRef (Suc ?n)) ''patterns'' = Inr (PRef ?n)"
  proof -
    from a have "?h3 ! Suc ?n = ?nd" by (simp add: nth_append)
    then have "dict_at ?h3 (PRef (Suc ?n)) =
        Some (Suc ?n, [(''enabled'', PBool True), (''patterns'', PRef ?n)])"
      by (simp add: dict_at_def)
    moreover have "map_of [(''enabled'', PBool True), (''patterns'', PRef ?n)] ''patterns'' =
        Some (PRef ?n)" by simp
    ultimately show ?thesis by (rule subscriptI)
  qed
  have four: "list_at ?h3 (PRef ?n) = Some (?n, [])"
  proof -
    from a have "?h3 ! ?n = PList []" by (simp add: nth_append)
    then show ?thesis by (simp add: list_at_def)
  qed
  have app: "append_pattern ?so1 category pattern =
      (Inr (), ?so1\<lparr>heap := ?h3[?n := PList ([] @ [PStr pattern])]\<rparr>)"
    using one two three four by (simp add: append_pattern_def)
  have "?h3[?n := PList ([] @ [PStr pattern])] =
      (?h @ [PList [PStr pattern], ?nd])[a := PDict ?d']"
  proof -
    from a have "a \<noteq> ?n" by simp
    then have "?h3[?n := PList [PStr pattern]] =
        ((?h @ [PList [], ?nd])[?n := PList [PStr pattern]])[a := PDict ?d']"
      by (simp add: list_update_swap)
    also have "(?h @ [PList [], ?nd])[?n := PList [PStr pattern]] =
        ?h @ [PList [PStr pattern], ?nd]"
      by (simp add: list_update_append)
    finally show ?thesis by simp
  qed
  with app have "append_pattern ?so1 category pattern =
      (Inr (), so\<lparr>heap := (?h @ [PList [PStr pattern], ?nd])[a := PDict ?d']\<rparr>)"
    by simp
  with es ad new show ?thesis
    by (simp add: add_custom_pattern_def alloc_def Let_def)
qed

lemma add_custom_pattern_heap:
  assumes "add_custom_pattern so category pattern = (res, so')"
  shows "self_config so' = self_config so \<and> self_extracted_data so' = self_extracted_data so \<and>
     length (heap so) \<le> length (heap so') \<and>
     (\<forall>b < length (heap so). written_by_add so category \<noteq> Some b \<longrightarrow>
        heap so' ! b = heap so ! b)"
proof (cases "subscript (heap so) (PRef (self_config so)) ''extraction_settings''")
  case (Inl e)
  with assms have "so' = so" by (simp add: add_custom_pattern_def)
  then show ?thesis by simp
next
  case (Inr es)
  show ?thesis
  proof (cases "dict_at (heap so) es")
    case None
    with assms Inr have "so' = so" by (simp add: add_custom_pattern_def)
    then show ?thesis by simp
  next
    case (Some ad)
    obtain a d where ad: "ad = (a, d)" by (cases ad)
    note dict = Some[unfolded ad]
    show ?thesis
    proof (cases "map_of d category")
      case None
      from add_new_category[OF Inr dict None, of pattern] assms
      have so': "so' = so\<lparr>heap := (heap so @ [PList [PStr pattern],
                    PDict [(''enabled'', PBool True), (''patterns'', PRef (length (heap so)))]])
               [a := PDict (AList.update category (PRef (Suc (length (heap so)))) d)]\<rparr>"
        by simp
      from Inr dict None have w: "written_by_add so category = Some a"
        by (simp add: written_by_add_def)
      show ?thesis unfolding so' w by (simp add: nth_append)
    next
      case (Some settings)
      from Inr dict Some assms have eq: "add_custom_pattern so category pattern =
          append_pattern so category pattern"
        by (simp add: add_custom_pattern_def)
      note ex = append_pattern_existing[OF Inr dict Some, of pattern]
      show ?thesis
      proof (cases "subscript (heap so) settings ''patterns''")
        case (Inl e)
        with ex eq assms have "so' = so" by simp
        then show ?thesis by simp
      next
        case ps: (Inr ps)
        show ?thesis
        proof (cases "list_at (heap so) ps")
          case None
          with ps ex eq assms have "so' = so" by simp
          then show ?thesis by simp
        next
          case lv: (Some lv)
          obtain l vs where lvs: "lv = (l, vs)" by (cases lv)
          from ps lv lvs ex eq assms
          have so': "so' = so\<lparr>heap := (heap so)[l := PList (vs @ [PStr pattern])]\<rparr>" by simp
          from Inr dict Some ps lv lvs have w: "written_by_add so category = Some l"
            by (simp add: written_by_add_def)
          show ?thesis unfolding so' w by simp
        qed
      qed
    qed
  qed
qed

lemma record_kept:
  assumes wf: "well_formed so"
    and same: "self_extracted_data so' = self_extracted_data so"
    and len: "length (heap so) \<le> length (heap so')"
    and kept: "\<And>b. b \<in> record_objects so \<Longrightarrow> b < length (heap so) \<Longrightarrow>
        heap so' ! b = heap so ! b"
  shows "record_content n so' = record_content n so"
proof -
  from wf have cl: "closed (heap so)" and r: "self_extracted_data so < length (heap so)"
    by (simp_all add: well_formed_def)
  have "snapshot n (heap so') (PRef (self_extracted_data so)) =
      snapshot n (heap so) (PRef (self_extracted_data so))"
  proof (rule snapshot_kept[OF cl r])
    fix b
    assume b: "b \<in> reach (heap so) (self_extracted_data so)"
    from reach_bound[OF cl r b] have "b < length (heap so)" .
    with kept[of b] b len show "b < length (heap so') \<and> heap so' ! b = heap so ! b"
      by (simp add: record_objects_def)
  qed
  with same show ?thesis by (simp add: record_content_def)
qed

lemma update_config_keeps_record:
  assumes "well_formed so" and "self_config so \<notin> record_objects so"
  shows "record_content n (snd (update_config so new_config)) = record_content n so"
proof -
  obtain res so' where u: "update_config so new_config = (res, so')"
    by (cases "update_config so new_config")
  note h = update_config_heap[OF u]
  have "record_content n so' = record_content n so"
  proof (rule record_kept[OF assms(1)])
    from h show "self_extracted_data so' = self_extracted_data so" by simp
    from h show "length (heap so) \<le> length (heap so')" by simp
    fix b
    assume "b \<in> record_objects so"
    with assms(2) have "b \<noteq> self_config so" by blast
    with h show "heap so' ! b = heap so ! b" by simp
  qed
  with u show ?thesis by simp
qed

lemma add_custom_pattern_keeps_record:
  assumes "well_formed so"
    and "\<And>a. written_by_add so category = Some a \<Longrightarrow> a \<notin> record_objects so"
  shows "record_content n (snd (add_custom_pattern so category pattern)) = record_content n so"
proof -
  obtain res so' where u: "add_custom_pattern so category pattern = (res, so')"
    by (cases "add_custom_pattern so category pattern")
  note h = add_custom_pattern_heap[OF u]
  have "record_content n so' = record_content n so"
  proof (rule record_kept[OF assms(1)])
    from h show "self_extracted_data so' = self_extracted_data so" by simp
    from h show "length (heap so) \<le> length (heap so')" by simp
    fix b
    assume "b \<in> record_objects so" and b: "b < length (heap so)"
    with assms(2)[of b] have "written_by_add so category \<noteq> Some b" by blast
    with h b show "heap so' ! b = heap so ! b" by simp
  qed
  with u show ?thesis by simp
qed

subsection \<open>A scan makes its record of new objects\<close>

lemma store_results_new:
  "store_results h rs = (entries, h') \<Longrightarrow>
   \<exists>ext. h' = h @ ext \<and>
     (\<forall>ob \<in> set ext. \<forall>c. PRef c \<in> set (values_of ob) \<longrightarrow> length h \<le> c \<and> c < length h') \<and>
     (\<forall>c. PRef c \<in> snd ` set entries \<longrightarrow> length h \<le> c \<and> c < length h')"
proof (induction rs arbitrary: h entries h')
  case Nil
  then show ?case by simp
next
  case (Cons e rs)
  obtain category matches where e: "e = (category, matches)" by (cases e)
  let ?l = "PList (map PStr matches)"
  let ?d = "PDict [(''count'', PInt (int (length matches))), (''items'', PRef (length h))]"
  let ?h2 = "h @ [?l, ?d]"
  obtain entries' h3 where rest: "store_results ?h2 rs = (entries', h3)"
    by (cases "store_results ?h2 rs")
  from Cons.prems e rest have en: "entries = (category, PRef (Suc (length h))) # entries'"
    and h': "h' = h3"
    by (simp_all add: alloc_def)
  from Cons.IH[OF rest] obtain ext' where ext': "h3 = ?h2 @ ext'"
    and refs: "\<forall>ob \<in> set ext'. \<forall>c. PRef c \<in> set (values_of ob) \<longrightarrow>
        length ?h2 \<le> c \<and> c < length h3"
    and ents: "\<forall>c. PRef c \<in> snd ` set entries' \<longrightarrow> length ?h2 \<le> c \<and> c < length h3"
    by blast
  from ext' have len: "Suc (Suc (length h)) \<le> length h3" by simp
  have "h' = h @ ([?l, ?d] @ ext')" using h' ext' by simp
  moreover have "\<forall>ob \<in> set ([?l, ?d] @ ext'). \<forall>c. PRef c \<in> set (values_of ob) \<longrightarrow>
      length h \<le> c \<and> c < length h'"
  proof (intro ballI allI impI)
    fix ob c
    assume ob: "ob \<in> set ([?l, ?d] @ ext')" and c: "PRef c \<in> set (values_of ob)"
    from ob consider "ob = ?l" | "ob = ?d" | "ob \<in> set ext'" by auto
    then show "length h \<le> c \<and> c < length h'"
    proof cases
      case 1
      with c show ?thesis by (auto simp: values_of_def)
    next
      case 2
      with c len h' show ?thesis by (auto simp: values_of_def)
    next
      case 3
      with refs c h' show ?thesis by fastforce
    qed
  qed
  moreover have "\<forall>c. PRef c \<in> snd ` set entries \<longrightarrow> length h \<le> c \<and> c < length h'"
  proof (intro allI impI)
    fix c
    assume "PRef c \<in> snd ` set entries"
    with en have "c = Suc (length h) \<or> PRef c \<in> snd ` set entries'" by auto
    with ents len h' show "length h \<le> c \<and> c < length h'" by fastforce
  qed
  ultimately show ?case by blast
qed

lemma scan_pdf_obj_Inr:
  assumes "scan_pdf_obj B so w path = (Inr r, so', w')"
  shows "\<exists>ext. heap so' = heap so @ ext \<and> ext \<noteq> [] \<and>
     self_config so' = self_config so \<and>
     self_extracted_data so' = length (heap so') - 1 \<and>
     r = PRef (self_extracted_data so') \<and>
     (\<forall>ob \<in> set ext. \<forall>c. PRef c \<in> set (values_of ob) \<longrightarrow>
        length (heap so) \<le> c \<and> c < length (heap so'))"
proof -
  from assms have ex: "path_exists B path"
    by (auto simp: scan_pdf_obj_def split: if_splits)
  obtain text_content w1 where tc:
    "extract_text_from_pdf B (config_view (heap so) (self_config so)) w path = (text_content, w1)"
    by (cases "extract_text_from_pdf B (config_view (heap so) (self_config so)) w path")
  from assms ex tc obtain es where
    es: "subscript (heap so) (PRef (self_config so)) ''extraction_settings'' = Inr es"
    by (cases "subscript (heap so) (PRef (self_config so)) ''extraction_settings''")
       (auto simp: scan_pdf_obj_def)
  from assms ex tc es obtain a d where ad: "dict_at (heap so) es = Some (a, d)"
    by (cases "dict_at (heap so) es") (auto simp: scan_pdf_obj_def)
  from assms ex tc es ad obtain results where
    loop: "scan_loop_obj B (heap so) (join '' '' text_content) d [] = Inr results"
    by (cases "scan_loop_obj B (heap so) (join '' '' text_content) d []")
       (auto simp: scan_pdf_obj_def)
  obtain entries h1 where st: "store_results (heap so) results = (entries, h1)"
    by (cases "store_results (heap so) results")
  let ?rs = "PDict entries"
  let ?rec = "PDict [(''pdf_path'', PStr path),
                    (''extraction_results'', PRef (length h1)),
                    (''total_pages'', PInt (int (length text_content))),
                    (''raw_text_preview'', PStr (text_preview (join '' '' text_content)))]"
  from assms ex tc es ad loop st
  have r: "r = PRef (Suc (length h1))"
    and so': "so' = so\<lparr>self_extracted_data := Suc (length h1), heap := h1 @ [?rs, ?rec]\<rparr>"
    by (simp_all add: scan_pdf_obj_def alloc_def Let_def)
  from store_results_new[OF st] obtain ext1 where h1: "h1 = heap so @ ext1"
    and refs: "\<forall>ob \<in> set ext1. \<forall>c. PRef c \<in> set (values_of ob) \<longrightarrow>
        length (heap so) \<le> c \<and> c < length h1"
    and ents: "\<forall>c. PRef c \<in> snd ` set entries \<longrightarrow> length (heap so) \<le> c \<and> c < length h1"
    by blast
  let ?ext = "ext1 @ [?rs, ?rec]"
  have heap: "heap so' = heap so @ ?ext" using so' h1 by simp
  have "\<forall>ob \<in> set ?ext. \<forall>c. PRef c \<in> set (values_of ob) \<longrightarrow>
      length (heap so) \<le> c \<and> c < length (heap so')"
  proof (intro ballI allI impI)
    fix ob c
    assume ob: "ob \<in> set ?ext" and c: "PRef c \<in> set (values_of ob)"
    from ob consider "ob \<in> set ext1" | "ob = ?rs" | "ob = ?rec" by auto
    then show "length (heap so) \<le> c \<and> c < length (heap so')"
    proof cases
      case 1
      with refs c have "length (heap so) \<le> c \<and> c < length h1" by blast
      with so' show ?thesis by simp
    next
      case 2
      with c have "PRef c \<in> snd ` set entries" by (simp add: values_of_def)
      with ents have "length (heap so) \<le> c \<and> c < length h1" by blast
      with so' show ?thesis by simp
    next
      case 3
      with c have "c = length h1" by (auto simp: values_of_def)
      with so' h1 show ?thesis by simp
    qed
  qed
  with heap so' r show ?thesis by (intro exI[of _ ?ext]) simp
qed

lemma scan_pdf_obj_new_record:
  assumes wf: "well_formed so" and scan: "scan_pdf_obj B so w path = (Inr r, so', w')"
  shows "well_formed so' \<and> apart so' \<and> r = PRef (self_extracted_data so') \<and>
     self_config so' = self_config so \<and>
     record_objects so' \<subseteq> {length (heap so)..<length (heap so')} \<and>
     config_objects so' = config_objects so \<and>
     (\<forall>b < length (heap so). heap so' ! b = heap so ! b)"
proof -
  let ?h = "heap so" and ?h' = "heap so'"
  from wf have cl: "closed ?h" and c: "self_config so < length ?h"
    by (simp_all add: well_formed_def)
  from scan_pdf_obj_Inr[OF scan] obtain ext where h': "?h' = ?h @ ext" and ne: "ext \<noteq> []"
    and cfg: "self_config so' = self_config so"
    and rec: "self_extracted_data so' = length ?h' - 1"
    and r: "r = PRef (self_extracted_data so')"
    and refs: "\<forall>ob \<in> set ext. \<forall>c. PRef c \<in> set (values_of ob) \<longrightarrow>
        length ?h \<le> c \<and> c < length ?h'"
    by blast
  have old: "?h' ! b = ?h ! b" if "b < length ?h" for b
    using that h' by (simp add: nth_append)
  have new: "?h' ! b \<in> set ext" if "length ?h \<le> b" and "b < length ?h'" for b
    using that h' by (simp add: nth_append)
  have cl': "closed ?h'"
  proof (rule closedI)
    fix b c
    assume b: "b < length ?h'" and ref: "PRef c \<in> set (values_of (?h' ! b))"
    show "c < length ?h'"
    proof (cases "b < length ?h")
      case True
      with ref old closedD[OF cl True, of c] h' show ?thesis by simp
    next
      case False
      with new[of b] b refs ref show ?thesis by fastforce
    qed
  qed
  from rec ne h' have recb: "length ?h \<le> self_extracted_data so'"
    and recl: "self_extracted_data so' < length ?h'"
    by (cases ext; simp)+
  have wf': "well_formed so'"
    using cl' cfg c h' recl by (simp add: well_formed_def)
  have ro: "record_objects so' \<subseteq> {length ?h..<length ?h'}"
    unfolding record_objects_def
  proof (rule reach_subset)
    from recb recl show "self_extracted_data so' \<in> {length ?h..<length ?h'}" by simp
  next
    fix b c
    assume "b \<in> {length ?h..<length ?h'}" and "PRef c \<in> set (values_of (?h' ! b))"
    with new[of b] refs show "c \<in> {length ?h..<length ?h'}" by fastforce
  qed
  have co: "config_objects so' = config_objects so"
    unfolding config_objects_def cfg
  proof (rule reach_kept[OF cl c])
    fix b
    assume "b < length ?h"
    with old h' show "b < length ?h' \<and> ?h' ! b = ?h ! b" by simp
  qed
  have "config_objects so \<subseteq> {..<length ?h}"
    using reach_bound[OF cl c] by (auto simp: config_objects_def)
  with ro co have "apart so'" by (fastforce simp: apart_def)
  with wf' r cfg ro co old show ?thesis by simp
qed

subsection \<open>The configuration and the record stay apart\<close>

lemma subscript_reach:
  assumes "subscript h (PRef b) key = Inr (PRef x)" and "b \<in> reach h a"
  shows "x \<in> reach h a"
proof -
  from subscriptD[OF assms(1)] obtain b' d where
    d: "dict_at h (PRef b) = Some (b', d)" and m: "map_of d key = Some (PRef x)" by blast
  from dict_atD[OF d] have b: "b < length h" and hb: "h ! b = PDict d" by simp_all
  from map_of_SomeD[OF m] have "PRef x \<in> snd ` set d" by force
  with hb have "PRef x \<in> set (values_of (h ! b))" by (simp add: values_of_def)
  from reach.reach_step[OF assms(2) b this] show ?thesis .
qed

lemma written_in_config:
  assumes "written_by_add so category = Some x"
  shows "x \<in> config_objects so"
proof -
  let ?h = "heap so" and ?c = "self_config so"
  from assms obtain es where
    es: "subscript ?h (PRef ?c) ''extraction_settings'' = Inr es"
    by (cases "subscript ?h (PRef ?c) ''extraction_settings''")
       (auto simp: written_by_add_def)
  from assms es obtain a d where ad: "dict_at ?h es = Some (a, d)"
    by (cases "dict_at ?h es") (auto simp: written_by_add_def)
  from dict_atD[OF ad] have esa: "es = PRef a" by simp
  from subscript_reach[OF es[unfolded esa] reach.reach_root]
  have a: "a \<in> reach ?h ?c" .
  show ?thesis
  proof (cases "map_of d category")
    case None
    with assms es ad have "x = a" by (simp add: written_by_add_def)
    with a show ?thesis by (simp add: config_objects_def)
  next
    case (Some settings)
    from ad Some have sub: "subscript ?h (PRef a) category = Inr settings"
      unfolding esa by (rule subscriptI)
    from assms es ad Some obtain ps where
      ps: "subscript ?h settings ''patterns'' = Inr ps"
      by (cases "subscript ?h settings ''patterns''") (auto simp: written_by_add_def)
    from subscriptD[OF ps] dict_atD obtain s where s: "settings = PRef s" by blast
    from assms es ad Some ps obtain vs where l: "list_at ?h ps = Some (x, vs)"
      by (cases "list_at ?h ps") (auto simp: written_by_add_def)
    from list_atD[OF l] have psx: "ps = PRef x" by simp
    from subscript_reach[OF sub[unfolded s] a] have "s \<in> reach ?h ?c" .
    from subscript_reach[OF ps[unfolded s psx] this] show ?thesis
      by (simp add: config_objects_def)
  qed
qed

lemma values_update:
  "set (map snd (AList.update k v d)) \<subseteq> insert v (set (map snd d))"
  by (induction d) auto

lemma values_foldl_update:
  "set (map snd (foldl (\<lambda>d' (k, v). AList.update k v d') d new_config)) \<subseteq>
   set (map snd d) \<union> snd ` set new_config"
proof (induction new_config arbitrary: d)
  case Nil
  show ?case by simp
next
  case (Cons kv new_config)
  obtain k v where kv: "kv = (k, v)" by (cases kv)
  from Cons.IH[of "AList.update k v d"] values_update[of k v d] kv
  show ?case by auto
qed

text \<open>The references of an object after \<^verbatim>\<open>add_custom_pattern\<close> are those it had or
  lead to new objects, and only the written object gets a reference to a new one.\<close>

lemma add_custom_pattern_refs:
  assumes add: "add_custom_pattern so category pattern = (res, so')"
    and b: "b < length (heap so')" and ref: "PRef c \<in> set (values_of (heap so' ! b))"
  shows "(b < length (heap so) \<and> PRef c \<in> set (values_of (heap so ! b))) \<or>
     (length (heap so) \<le> c \<and> c < length (heap so'))"
proof (cases "subscript (heap so) (PRef (self_config so)) ''extraction_settings''")
  case (Inl e)
  with add have "so' = so" by (simp add: add_custom_pattern_def)
  with b ref show ?thesis by simp
next
  case (Inr es)
  show ?thesis
  proof (cases "dict_at (heap so) es")
    case None
    with add Inr have "so' = so" by (simp add: add_custom_pattern_def)
    with b ref show ?thesis by simp
  next
    case (Some ad)
    obtain a d where ad: "ad = (a, d)" by (cases ad)
    note dict = Some[unfolded ad]
    from dict_atD[OF dict] have a: "a < length (heap so)" and ha: "heap so ! a = PDict d"
      by simp_all
    show ?thesis
    proof (cases "map_of d category")
      case None
      let ?n = "length (heap so)"
      from add_new_category[OF Inr dict None, of pattern] add
      have so': "heap so' = (heap so @ [PList [PStr pattern],
                    PDict [(''enabled'', PBool True), (''patterns'', PRef ?n)]])
               [a := PDict (AList.update category (PRef (Suc ?n)) d)]"
        by auto
      then have len: "length (heap so') = Suc (Suc ?n)" by simp
      consider "b = a" | "b \<noteq> a" "b < ?n" | "b = ?n" | "b = Suc ?n"
        using b len by linarith
      then show ?thesis
      proof cases
        case 1
        with so' a have "heap so' ! b = PDict (AList.update category (PRef (Suc ?n)) d)"
          by simp
        with ref values_update[of category "PRef (Suc ?n)" d]
        have "c = Suc ?n \<or> PRef c \<in> set (map snd d)" by (auto simp: values_of_def)
        with 1 a ha len show ?thesis by (auto simp: values_of_def)
      next
        case 2
        with so' have "heap so' ! b = heap so ! b" by (simp add: nth_append)
        with 2 ref show ?thesis by simp
      next
        case 3
        with so' a have "heap so' ! b = PList [PStr pattern]" by (simp add: nth_append)
        with ref show ?thesis by (simp add: values_of_def)
      next
        case 4
        with so' a have "heap so' ! b =
            PDict [(''enabled'', PBool True), (''patterns'', PRef ?n)]"
          by (simp add: nth_append)
        with ref len show ?thesis by (auto simp: values_of_def)
      qed
    next
      case (Some settings)
      from Inr dict Some add have eq: "append_pattern so category pattern = (res, so')"
        by (simp add: add_custom_pattern_def)
      note ex = append_pattern_existing[OF Inr dict Some, of pattern]
      show ?thesis
      proof (cases "subscript (heap so) settings ''patterns''")
        case (Inl e)
        with ex eq have "so' = so" by simp
        with b ref show ?thesis by simp
      next
        case ps: (Inr ps)
        show ?thesis
        proof (cases "list_at (heap so) ps")
          case None
          with ps ex eq have "so' = so" by simp
          with b ref show ?thesis by simp
        next
          case lv: (Some lv)
          obtain l vs where lvs: "lv = (l, vs)" by (cases lv)
          from ps lv lvs ex eq
          have so': "heap so' = (heap so)[l := PList (vs @ [PStr pattern])]" by auto
          from list_atD[OF lv[unfolded lvs]]
          have l: "l < length (heap so)" and hl: "heap so ! l = PList vs" by simp_all
          show ?thesis
          proof (cases "b = l")
            case True
            with so' l have "heap so' ! b = PList (vs @ [PStr pattern])" by simp
            with ref have "PRef c \<in> set vs" by (auto simp: values_of_def)
            with True l hl show ?thesis by (simp add: values_of_def)
          next
            case False
            with so' have "heap so' ! b = heap so ! b" by simp
            with b so' ref show ?thesis by simp
          qed
        qed
      qed
    qed
  qed
qed

lemma add_custom_pattern_apart:
  assumes wf: "well_formed so" and ap: "apart so"
    and add: "add_custom_pattern so category pattern = (res, so')"
  shows "well_formed so' \<and> apart so' \<and> record_objects so' = record_objects so"
proof -
  let ?h = "heap so" and ?h' = "heap so'"
  from wf have cl: "closed ?h" and c: "self_config so < length ?h"
    and r: "self_extracted_data so < length ?h"
    by (simp_all add: well_formed_def)
  note h = add_custom_pattern_heap[OF add]
  note refs = add_custom_pattern_refs[OF add]
  have cl': "closed ?h'"
  proof (rule closedI)
    fix b x
    assume "b < length ?h'" and "PRef x \<in> set (values_of (?h' ! b))"
    from refs[OF this] closedD[OF cl] h show "x < length ?h'" by fastforce
  qed
  with h c r have wf': "well_formed so'" by (simp add: well_formed_def)
  have ro: "record_objects so' = record_objects so"
    unfolding record_objects_def
  proof -
    have "reach ?h' (self_extracted_data so) = reach ?h (self_extracted_data so)"
    proof (rule reach_kept[OF cl r])
      fix b
      assume b: "b \<in> reach ?h (self_extracted_data so)" and bl: "b < length ?h"
      have "written_by_add so category \<noteq> Some b"
      proof
        assume "written_by_add so category = Some b"
        from written_in_config[OF this] b ap show False
          by (auto simp: apart_def record_objects_def)
      qed
      with h bl show "b < length ?h' \<and> ?h' ! b = ?h ! b" by simp
    qed
    with h show "reach ?h' (self_extracted_data so') = reach ?h (self_extracted_data so)"
      by simp
  qed
  have co: "config_objects so' \<subseteq> config_objects so \<union> {length ?h..<length ?h'}"
    unfolding config_objects_def
  proof (rule reach_subset)
    from h show "self_config so' \<in> reach ?h (self_config so) \<union> {length ?h..<length ?h'}"
      by (simp add: reach.reach_root)
  next
    fix b x
    assume b: "b \<in> reach ?h (self_config so) \<union> {length ?h..<length ?h'}"
      and bl: "b < length ?h'" and x: "PRef x \<in> set (values_of (?h' ! b))"
    from refs[OF bl x] show "x \<in> reach ?h (self_config so) \<union> {length ?h..<length ?h'}"
    proof
      assume old: "b < length ?h \<and> PRef x \<in> set (values_of (?h ! b))"
      with b have "b \<in> reach ?h (self_config so)" by auto
      with old show ?thesis by (blast intro: reach.reach_step)
    next
      assume "length ?h \<le> x \<and> x < length ?h'"
      then show ?thesis by simp
    qed
  qed
  have "record_objects so \<subseteq> {..<length ?h}"
    using reach_bound[OF cl r] by (auto simp: record_objects_def)
  with co ro ap have "apart so'" by (fastforce simp: apart_def)
  with wf' ro show ?thesis by simp
qed

lemma update_config_refs:
  assumes upd: "update_config so new_config = (res, so')"
    and b: "b < length (heap so')" and ref: "PRef c \<in> set (values_of (heap so' ! b))"
  shows "PRef c \<in> set (values_of (heap so ! b)) \<or>
     (b = self_config so \<and> PRef c \<in> snd ` set new_config)"
proof (cases "dict_at (heap so) (PRef (self_config so))")
  case None
  with upd have "so' = so" by (simp add: update_config_def)
  with ref show ?thesis by simp
next
  case (Some ad)
  obtain a d where ad: "ad = (a, d)" by (cases ad)
  from dict_atD[OF Some[unfolded ad]] have a: "a = self_config so"
    and al: "a < length (heap so)" and ha: "heap so ! a = PDict d" by simp_all
  from upd Some ad have so': "heap so' =
      (heap so)[a := PDict (foldl (\<lambda>d' (k, v). AList.update k v d') d new_config)]"
    by (auto simp: update_config_def)
  show ?thesis
  proof (cases "b = a")
    case True
    with so' al have "heap so' ! b =
        PDict (foldl (\<lambda>d' (k, v). AList.update k v d') d new_config)" by simp
    with ref values_foldl_update[of d new_config]
    have "PRef c \<in> set (map snd d) \<or> PRef c \<in> snd ` set new_config"
      by (auto simp: values_of_def)
    with True a ha show ?thesis by (auto simp: values_of_def)
  next
    case False
    with so' have "heap so' ! b = heap so ! b" by simp
    with ref show ?thesis by simp
  qed
qed

lemma update_config_apart:
  assumes wf: "well_formed so" and ap: "apart so"
    and arg: "holds_no_record_object so new_config"
    and upd: "update_config so new_config = (res, so')"
  shows "well_formed so' \<and> apart so' \<and> record_objects so' = record_objects so"
proof -
  let ?h = "heap so" and ?h' = "heap so'"
  let ?args = "\<Union>a \<in> {a. PRef a \<in> snd ` set new_config}. reach ?h a"
  from wf have cl: "closed ?h" and c: "self_config so < length ?h"
    and r: "self_extracted_data so < length ?h"
    by (simp_all add: well_formed_def)
  note h = update_config_heap[OF upd]
  note refs = update_config_refs[OF upd]
  have cl': "closed ?h'"
  proof (rule closedI)
    fix b x
    assume bl: "b < length ?h'" and x: "PRef x \<in> set (values_of (?h' ! b))"
    from refs[OF bl x] show "x < length ?h'"
    proof
      assume "PRef x \<in> set (values_of (?h ! b))"
      with closedD[OF cl, of b x] bl h show ?thesis by simp
    next
      assume "b = self_config so \<and> PRef x \<in> snd ` set new_config"
      with arg h show ?thesis by (simp add: holds_no_record_object_def)
    qed
  qed
  with h c r have wf': "well_formed so'" by (simp add: well_formed_def)
  have cr: "self_config so \<notin> record_objects so"
    using ap reach.reach_root[of "self_config so" ?h]
    by (auto simp: apart_def config_objects_def)
  have ro: "record_objects so' = record_objects so"
  proof -
    have "reach ?h' (self_extracted_data so) = reach ?h (self_extracted_data so)"
    proof (rule reach_kept[OF cl r])
      fix b
      assume "b \<in> reach ?h (self_extracted_data so)" and bl: "b < length ?h"
      with cr have "b \<noteq> self_config so" by (auto simp: record_objects_def)
      with h bl show "b < length ?h' \<and> ?h' ! b = ?h ! b" by simp
    qed
    with h show ?thesis by (simp add: record_objects_def)
  qed
  have co: "config_objects so' \<subseteq> config_objects so \<union> ?args"
    unfolding config_objects_def
  proof (rule reach_subset)
    from h show "self_config so' \<in> reach ?h (self_config so) \<union> ?args"
      by (simp add: reach.reach_root)
  next
    fix b x
    assume b: "b \<in> reach ?h (self_config so) \<union> ?args"
      and bl: "b < length ?h'" and x: "PRef x \<in> set (values_of (?h' ! b))"
    from bl h have bl': "b < length ?h" by simp
    from refs[OF bl x] show "x \<in> reach ?h (self_config so) \<union> ?args"
    proof
      assume old: "PRef x \<in> set (values_of (?h ! b))"
      from b show ?thesis
      proof
        assume "b \<in> reach ?h (self_config so)"
        from reach.reach_step[OF this bl' old] show ?thesis by simp
      next
        assume "b \<in> ?args"
        then obtain a where a: "PRef a \<in> snd ` set new_config" and ba: "b \<in> reach ?h a"
          by blast
        from reach.reach_step[OF ba bl' old] a show ?thesis by blast
      qed
    next
      assume "b = self_config so \<and> PRef x \<in> snd ` set new_config"
      then have "x \<in> ?args" using reach.reach_root[of x ?h] by blast
      then show ?thesis by simp
    qed
  qed
  have "?args \<inter> record_objects so = {}"
    using arg by (auto simp: holds_no_record_object_def)
  with co ro ap have "apart so'" by (fastforce simp: apart_def)
  with wf' ro show ?thesis by simp
qed

subsection \<open>A new scanner\<close>

lemma new_refl: "new_objects_only h h"
  by (simp add: new_objects_only_def)

lemma new_length: "new_objects_only h h' \<Longrightarrow> length h \<le> length h'"
  by (auto simp: new_objects_only_def)

lemma new_alloc:
  assumes "new_objects_only h0 h"
    and "\<And>c. PRef c \<in> set (values_of ob) \<Longrightarrow> length h0 \<le> c \<and> c < length h"
  shows "new_objects_only h0 (h @ [ob])"
proof -
  from assms(1) obtain ext where h: "h = h0 @ ext"
    and refs: "\<forall>ob \<in> set ext. \<forall>c. PRef c \<in> set (values_of ob) \<longrightarrow>
        length h0 \<le> c \<and> c < length h"
    unfolding new_objects_only_def by blast
  have "h @ [ob] = h0 @ (ext @ [ob])" using h by simp
  moreover have "\<forall>o' \<in> set (ext @ [ob]). \<forall>c. PRef c \<in> set (values_of o') \<longrightarrow>
      length h0 \<le> c \<and> c < length (h @ [ob])"
    using refs assms(2) by fastforce
  ultimately show ?thesis unfolding new_objects_only_def by blast
qed

lemma new_nth:
  assumes "new_objects_only h h'" and "length h \<le> b" and "b < length h'"
    and "PRef c \<in> set (values_of ((h' @ later) ! b))"
  shows "length h \<le> c \<and> c < length h'"
proof -
  from assms(1) obtain ext where h: "h' = h @ ext"
    and refs: "\<forall>ob \<in> set ext. \<forall>c. PRef c \<in> set (values_of ob) \<longrightarrow>
        length h \<le> c \<and> c < length h'"
    unfolding new_objects_only_def by blast
  from assms(3) have "(h' @ later) ! b = h' ! b" by (simp add: nth_append)
  also from assms(2) h have "h' ! b = ext ! (b - length h)" by (simp add: nth_append)
  finally have eq: "(h' @ later) ! b = ext ! (b - length h)" .
  from assms(2,3) h have "b - length h < length ext" by simp
  with eq have "(h' @ later) ! b \<in> set ext" by simp
  with refs assms(4) show ?thesis by blast
qed

lemma new_closed:
  assumes "closed h" and "new_objects_only h h'"
  shows "closed h'"
proof (rule closedI)
  fix b c
  assume b: "b < length h'" and ref: "PRef c \<in> set (values_of (h' ! b))"
  from assms(2) obtain ext where h: "h' = h @ ext"
    unfolding new_objects_only_def by blast
  show "c < length h'"
  proof (cases "b < length h")
    case True
    with ref h have "PRef c \<in> set (values_of (h ! b))" by (simp add: nth_append)
    from closedD[OF assms(1) True this] h show ?thesis by simp
  next
    case False
    with new_nth[OF assms(2) _ b, of c "[]"] ref show ?thesis by simp
  qed
qed

lemma no_ref:
  "Some (PRef c) \<noteq> map_option PBool x" "Some (PRef c) \<noteq> map_option PInt y"
  "Some (PRef c) \<noteq> map_option PStr z"
  by (cases x, simp_all, cases y, simp_all, cases z, simp_all)

lemma present_refs: "PRef c \<in> snd ` set (present kvs) \<Longrightarrow> Some (PRef c) \<in> snd ` set kvs"
  by (induction kvs) (auto simp: present_def split: option.splits)

lemma load_patterns_new:
  assumes "new_objects_only h0 h" and "load_patterns h ps = (v, h')"
  shows "new_objects_only h0 h' \<and> (\<forall>c. v = Some (PRef c) \<longrightarrow> length h0 \<le> c \<and> c < length h')"
proof (cases ps)
  case None
  with assms show ?thesis by (simp add: load_patterns_def)
next
  case (Some pats)
  with assms(2) have v: "v = Some (PRef (length h))" and h': "h' = h @ [PList (map PStr pats)]"
    by (simp_all add: load_patterns_def alloc_def)
  have "new_objects_only h0 (h @ [PList (map PStr pats)])"
    by (rule new_alloc[OF assms(1)]) (auto simp: values_of_def)
  with v h' new_length[OF assms(1)] show ?thesis by simp
qed

lemma load_categories_new:
  "new_objects_only h0 h \<Longrightarrow> load_categories h cats = (entries, h') \<Longrightarrow>
   new_objects_only h0 h' \<and>
   (\<forall>c. PRef c \<in> snd ` set entries \<longrightarrow> length h0 \<le> c \<and> c < length h')"
proof (induction cats arbitrary: h0 h entries h')
  case Nil
  then show ?case by simp
next
  case (Cons e cats)
  obtain category settings where e: "e = (category, settings)" by (cases e)
  obtain ps h1 where lp: "load_patterns h (patterns settings) = (ps, h1)"
    by (cases "load_patterns h (patterns settings)")
  let ?d = "PDict (present [(''enabled'', map_option PBool (enabled settings)), (''patterns'', ps)])"
  obtain entries' h3 where rest: "load_categories (h1 @ [?d]) cats = (entries', h3)"
    by (cases "load_categories (h1 @ [?d]) cats")
  from Cons.prems(2) e lp rest have en: "entries = (category, PRef (length h1)) # entries'"
    and h': "h' = h3"
    by (simp_all add: alloc_def)
  from load_patterns_new[OF Cons.prems(1) lp] have n1: "new_objects_only h0 h1"
    and psr: "\<forall>c. ps = Some (PRef c) \<longrightarrow> length h0 \<le> c \<and> c < length h1" by simp_all
  have n2: "new_objects_only h0 (h1 @ [?d])"
  proof (rule new_alloc[OF n1])
    fix c
    assume "PRef c \<in> set (values_of ?d)"
    then have "PRef c \<in> snd ` set (present
        [(''enabled'', map_option PBool (enabled settings)), (''patterns'', ps)])"
      by (simp add: values_of_def)
    from present_refs[OF this] have "ps = Some (PRef c)" by (auto simp: no_ref)
    with psr show "length h0 \<le> c \<and> c < length h1" by simp
  qed
  from Cons.IH[OF n2 rest] have n3: "new_objects_only h0 h3"
    and er: "\<forall>c. PRef c \<in> snd ` set entries' \<longrightarrow> length h0 \<le> c \<and> c < length h3"
    by simp_all
  from new_length[OF n1] new_length[OF n3] rest
  have "length h0 \<le> length h1" by simp
  moreover have "length h1 < length h3"
  proof -
    obtain ext where "h3 = (h1 @ [?d]) @ ext"
      using Cons.IH[OF new_refl rest] unfolding new_objects_only_def by blast
    then show ?thesis by simp
  qed
  ultimately show ?case using en h' n3 er by auto
qed

lemma load_extraction_settings_new:
  assumes "new_objects_only h0 h" and "load_extraction_settings h es = (v, h')"
  shows "new_objects_only h0 h' \<and> (\<forall>c. v = Some (PRef c) \<longrightarrow> length h0 \<le> c \<and> c < length h')"
proof (cases es)
  case None
  with assms show ?thesis by (simp add: load_extraction_settings_def)
next
  case (Some cats)
  obtain entries h1 where lc: "load_categories h cats = (entries, h1)"
    by (cases "load_categories h cats")
  with Some assms(2) have v: "v = Some (PRef (length h1))" and h': "h' = h1 @ [PDict entries]"
    by (simp_all add: load_extraction_settings_def alloc_def)
  from load_categories_new[OF assms(1) lc] have n1: "new_objects_only h0 h1"
    and er: "\<forall>c. PRef c \<in> snd ` set entries \<longrightarrow> length h0 \<le> c \<and> c < length h1"
    by simp_all
  have "new_objects_only h0 (h1 @ [PDict entries])"
    by (rule new_alloc[OF n1]) (use er in \<open>simp add: values_of_def\<close>)
  with v h' new_length[OF n1] show ?thesis by simp
qed

lemma load_preprocessing_new:
  assumes "new_objects_only h0 h" and "load_preprocessing h pp = (v, h')"
  shows "new_objects_only h0 h' \<and> (\<forall>c. v = Some (PRef c) \<longrightarrow> length h0 \<le> c \<and> c < length h')"
proof (cases pp)
  case None
  with assms show ?thesis by (simp add: load_preprocessing_def)
next
  case (Some p)
  let ?d = "PDict (present
     [(''denoise'', map_option PBool (denoise p)),
      (''enhance_contrast'', map_option PBool (enhance_contrast p)),
      (''sharpen'', map_option PBool (sharpen p))])"
  from Some assms(2) have v: "v = Some (PRef (length h))" and h': "h' = h @ [?d]"
    by (simp_all add: load_preprocessing_def alloc_def)
  have "new_objects_only h0 (h @ [?d])"
  proof (rule new_alloc[OF assms(1)])
    fix c
    assume "PRef c \<in> set (values_of ?d)"
    then have "PRef c \<in> snd ` set (present
     [(''denoise'', map_option PBool (denoise p)),
      (''enhance_contrast'', map_option PBool (enhance_contrast p)),
      (''sharpen'', map_option PBool (sharpen p))])" by (simp add: values_of_def)
    from present_refs[OF this] show "length h0 \<le> c \<and> c < length h" by (auto simp: no_ref)
  qed
  with v h' new_length[OF assms(1)] show ?thesis by simp
qed

lemma load_ocr_settings_new:
  assumes "new_objects_only h0 h" and "load_ocr_settings h ocr = (v, h')"
  shows "new_objects_only h0 h' \<and> (\<forall>c. v = Some (PRef c) \<longrightarrow> length h0 \<le> c \<and> c < length h')"
proof (cases ocr)
  case None
  with assms show ?thesis by (simp add: load_ocr_settings_def)
next
  case (Some s)
  obtain pp h1 where lp: "load_preprocessing h (preprocessing s) = (pp, h1)"
    by (cases "load_preprocessing h (preprocessing s)")
  let ?d = "PDict (present
     [(''dpi'', map_option PInt (dpi s)),
      (''preprocessing'', pp),
      (''tesseract_config'', map_option PStr (tesseract_config s))])"
  from Some assms(2) lp have v: "v = Some (PRef (length h1))" and h': "h' = h1 @ [?d]"
    by (simp_all add: load_ocr_settings_def alloc_def)
  from load_preprocessing_new[OF assms(1) lp] have n1: "new_objects_only h0 h1"
    and pr: "\<forall>c. pp = Some (PRef c) \<longrightarrow> length h0 \<le> c \<and> c < length h1" by simp_all
  have "new_objects_only h0 (h1 @ [?d])"
  proof (rule new_alloc[OF n1])
    fix c
    assume "PRef c \<in> set (values_of ?d)"
    then have "PRef c \<in> snd ` set (present
     [(''dpi'', map_option PInt (dpi s)),
      (''preprocessing'', pp),
      (''tesseract_config'', map_option PStr (tesseract_config s))])"
      by (simp add: values_of_def)
    from present_refs[OF this] have "pp = Some (PRef c)" by (auto simp: no_ref)
    with pr show "length h0 \<le> c \<and> c < length h1" by simp
  qed
  with v h' new_length[OF n1] show ?thesis by simp
qed

lemma load_config_new:
  assumes "load_config h cfg = (c, h')"
  shows "new_objects_only h h' \<and> length h \<le> c \<and> c < length h'"
proof -
  obtain es h1 where le: "load_extraction_settings h (extraction_settings cfg) = (es, h1)"
    by (cases "load_extraction_settings h (extraction_settings cfg)")
  obtain ocr h2 where lo: "load_ocr_settings h1 (ocr_settings cfg) = (ocr, h2)"
    by (cases "load_ocr_settings h1 (ocr_settings cfg)")
  let ?d = "PDict (present [(''extraction_settings'', es), (''ocr_settings'', ocr)])"
  from assms le lo have c: "c = length h2" and h': "h' = h2 @ [?d]"
    by (simp_all add: load_config_def alloc_def)
  from load_extraction_settings_new[OF new_refl le] have n1: "new_objects_only h h1"
    and er: "\<forall>c. es = Some (PRef c) \<longrightarrow> length h \<le> c \<and> c < length h1" by simp_all
  from load_ocr_settings_new[OF n1 lo] have n2: "new_objects_only h h2"
    and orf: "\<forall>c. ocr = Some (PRef c) \<longrightarrow> length h \<le> c \<and> c < length h2" by simp_all
  from load_ocr_settings_new[OF new_refl lo] have l12: "length h1 \<le> length h2"
    using new_length by blast
  have "new_objects_only h (h2 @ [?d])"
  proof (rule new_alloc[OF n2])
    fix x
    assume "PRef x \<in> set (values_of ?d)"
    then have "PRef x \<in> snd ` set (present [(''extraction_settings'', es), (''ocr_settings'', ocr)])"
      by (simp add: values_of_def)
    from present_refs[OF this] have "es = Some (PRef x) \<or> ocr = Some (PRef x)" by auto
    with er orf l12 show "length h \<le> x \<and> x < length h2" by fastforce
  qed
  with c h' new_length[OF n2] show ?thesis by simp
qed

lemma PIDScanner_apart:
  assumes "closed h"
  shows "well_formed (PIDScanner h cfg) \<and> apart (PIDScanner h cfg)"
proof -
  obtain c h1 where lc: "load_config h cfg = (c, h1)" by (cases "load_config h cfg")
  let ?so = "PIDScanner h cfg"
  from lc have so: "?so = \<lparr>self_config = c, self_extracted_data = length h1,
      heap = h1 @ [PDict []]\<rparr>"
    by (simp add: PIDScanner_def alloc_def)
  from load_config_new[OF lc] have n1: "new_objects_only h h1" and cl: "length h \<le> c"
    and cu: "c < length h1" by simp_all
  have "new_objects_only h (h1 @ [PDict []])"
    by (rule new_alloc[OF n1]) (simp add: values_of_def)
  from new_closed[OF assms this] cu so have wf: "well_formed ?so"
    by (simp add: well_formed_def)
  have co: "config_objects ?so \<subseteq> {length h..<length h1}"
    unfolding config_objects_def so
  proof (simp, rule reach_subset)
    from cl cu show "c \<in> {length h..<length h1}" by simp
  next
    fix b x
    assume "b \<in> {length h..<length h1}" and "PRef x \<in> set (values_of ((h1 @ [PDict []]) ! b))"
    with new_nth[OF n1, of b x "[PDict []]"] show "x \<in> {length h..<length h1}" by simp
  qed
  have ro: "record_objects ?so \<subseteq> {length h1}"
    unfolding record_objects_def so
  proof (simp, rule reach_subset)
    show "length h1 \<in> {length h1}" by simp
  next
    fix b x
    assume "b \<in> {length h1}" and "PRef x \<in> set (values_of ((h1 @ [PDict []]) ! b))"
    then show "x \<in> {length h1}" by (simp add: values_of_def)
  qed
  from co ro have "apart ?so" by (fastforce simp: apart_def)
  with wf show ?thesis by simp
qed

subsection \<open>The record after a configuration call\<close>

text \<open>
  Claim C8, as the code has it. The stored record is the dictionary that
  \<^verbatim>\<open>scan_pdf\<close> returned, and the two configuration methods write into objects in
  place, so the record is kept exactly as far as the written object is none of its
  objects. For every scanner whose references are to objects of the store, and every
  depth \<open>n\<close> of looking into the record, whether the call returns or raises:

  \<^item> a new scanner has a configuration and a stored record that share no object;
  \<^item> a scan that returns gives the reference of the record it stores, and the
    configuration and this record share no object;
  \<^item> when the configuration and the stored record share no object,
    \<^verbatim>\<open>add_custom_pattern\<close> and \<^verbatim>\<open>update_config\<close> leave the content of the record as it
    was; after \<^verbatim>\<open>add_custom_pattern\<close> they still share no object, and so they do
    after \<^verbatim>\<open>update_config\<close> when the new configuration holds no object of the
    record;
  \<^item> \<^verbatim>\<open>update_config\<close> leaves the content of the record as it was whenever the
    configuration dictionary is no object of the record;
  \<^item> \<^verbatim>\<open>add_custom_pattern\<close> leaves it as it was whenever the object it writes into
    (the \<^verbatim>\<open>extraction_settings\<close> dictionary for a new category, the list of patterns
    of an existing one) is no object of the record.
\<close>

theorem configuration_calls_keep_record:
  "(closed h \<longrightarrow> well_formed (PIDScanner h cfg) \<and> apart (PIDScanner h cfg)) \<and>
   (well_formed so \<and> scan_pdf_obj B so w path = (Inr r, so', w') \<longrightarrow>
      r = PRef (self_extracted_data so') \<and> well_formed so' \<and> apart so') \<and>
   (well_formed so \<and> apart so \<longrightarrow>
      record_content n (snd (add_custom_pattern so category pattern)) = record_content n so \<and>
      well_formed (snd (add_custom_pattern so category pattern)) \<and>
      apart (snd (add_custom_pattern so category pattern)) \<and>
      record_content n (snd (update_config so new_config)) = record_content n so \<and>
      (holds_no_record_object so new_config \<longrightarrow>
         well_formed (snd (update_config so new_config)) \<and>
         apart (snd (update_config so new_config)))) \<and>
   (well_formed so \<and> self_config so \<notin> record_objects so \<longrightarrow>
      record_content n (snd (update_config so new_config)) = record_content n so) \<and>
   (well_formed so \<and> (\<forall>a. written_by_add so category = Some a \<longrightarrow> a \<notin> record_objects so) \<longrightarrow>
      record_content n (snd (add_custom_pattern so category pattern)) = record_content n so)"
proof (intro conjI impI)
  assume "closed h"
  then show "well_formed (PIDScanner h cfg)" and "apart (PIDScanner h cfg)"
    by (simp_all add: PIDScanner_apart)
next
  assume "well_formed so \<and> scan_pdf_obj B so w path = (Inr r, so', w')"
  then have "well_formed so" and "scan_pdf_obj B so w path = (Inr r, so', w')" by simp_all
  from scan_pdf_obj_new_record[OF this]
  show "r = PRef (self_extracted_data so')" and "well_formed so'" and "apart so'"
    by simp_all
next
  assume a: "well_formed so \<and> apart so"
  then have wf: "well_formed so" and ap: "apart so" by simp_all
  have cfg: "self_config so \<notin> record_objects so"
    using ap reach.reach_root[of "self_config so" "heap so"]
    by (auto simp: apart_def config_objects_def)
  have wr: "a \<notin> record_objects so" if "written_by_add so category = Some a" for a
    using written_in_config[OF that] ap by (auto simp: apart_def)
  obtain res1 so1 where add: "add_custom_pattern so category pattern = (res1, so1)"
    by (cases "add_custom_pattern so category pattern")
  from add_custom_pattern_apart[OF wf ap add] add
  show "well_formed (snd (add_custom_pattern so category pattern))"
    and "apart (snd (add_custom_pattern so category pattern))" by simp_all
  from add_custom_pattern_keeps_record[OF wf wr]
  show "record_content n (snd (add_custom_pattern so category pattern)) = record_content n so"
    by simp
  from update_config_keeps_record[OF wf cfg]
  show "record_content n (snd (update_config so new_config)) = record_content n so" .
  assume arg: "holds_no_record_object so new_config"
  obtain res2 so2 where upd: "update_config so new_config = (res2, so2)"
    by (cases "update_config so new_config")
  from update_config_apart[OF wf ap arg upd] upd
  show "well_formed (snd (update_config so new_config))"
    and "apart (snd (update_config so new_config))" by simp_all
next
  assume "well_formed so \<and> self_config so \<notin> record_objects so"
  then show "record_content n (snd (update_config so new_config)) = record_content n so"
    by (simp add: update_config_keeps_record)
next
  assume "well_formed so \<and>
    (\<forall>a. written_by_add so category = Some a \<longrightarrow> a \<notin> record_objects so)"
  then show "record_content n (snd (add_custom_pattern so category pattern)) =
      record_content n so"
    by (simp add: add_custom_pattern_keeps_record)
qed

lemma sample_scan_obj:
  "scan_pdf_obj (sample_backend (Returns [Returns (Some sample_text)]) Raises)
     sample_scanner sample_world ''drawing.pdf'' = (Inr (PRef 19), sample_scanned, sample_world)"
  by code_simp

lemma sample_scanned_content: "record_content 4 sample_scanned = content_of_record sample_record"
  by code_simp

lemma sample_rescan:
  "scan_pdf_obj (sample_backend (Returns [Returns (Some sample_text)]) Raises)
     (snd (add_custom_pattern sample_scanned ''pumps'' ''P-[0-9]+''))
     sample_world ''drawing.pdf'' = (Inr (PRef 31), rescanned, sample_world) \<and>
   record_content 4 rescanned = rescanned_content"
  by code_simp

theorem configuration_calls_keep_record_witness:
  "closed [] \<and> well_formed sample_scanner \<and> apart sample_scanner \<and>
   scan_pdf_obj (sample_backend (Returns [Returns (Some sample_text)]) Raises)
     sample_scanner sample_world ''drawing.pdf'' = (Inr (PRef 19), sample_scanned, sample_world) \<and>
   self_extracted_data sample_scanned = 19 \<and>
   well_formed sample_scanned \<and> apart sample_scanned \<and>
   self_config sample_scanned \<notin> record_objects sample_scanned \<and>
   record_content 4 sample_scanned = content_of_record sample_record \<and>
   record_content 4 (snd (add_custom_pattern sample_scanned ''pumps'' ''P-[0-9]+'')) =
     content_of_record sample_record \<and>
   record_content 4 (snd (add_custom_pattern sample_scanned ''valves'' ''XV-[0-9]+'')) =
     content_of_record sample_record \<and>
   apart (snd (add_custom_pattern sample_scanned ''pumps'' ''P-[0-9]+'')) \<and>
   record_content 4 (snd (update_config sample_scanned results_as_settings)) =
     content_of_record sample_record \<and>
   holds_no_record_object sample_scanned plain_settings \<and>
   apart (snd (update_config sample_scanned plain_settings)) \<and>
   record_content 4 (snd (update_config sample_scanned plain_settings)) =
     content_of_record sample_record \<and>
   record_content 4 rescanned = rescanned_content"
proof -
  let ?B = "sample_backend (Returns [Returns (Some sample_text)]) Raises"
  have c: "closed []" by (simp add: closed_def)
  note new = configuration_calls_keep_record[of "[]" sample_config sample_scanner ?B
      sample_world "''drawing.pdf''" "PRef 19" sample_scanned sample_world 4
      "''pumps''" "''P-[0-9]+''" plain_settings]
  from new c have wf0: "well_formed sample_scanner" and ap0: "apart sample_scanner"
    unfolding sample_scanner_def by blast+
  from new wf0 sample_scan_obj have r: "PRef 19 = PRef (self_extracted_data sample_scanned)"
    and wf: "well_formed sample_scanned" and ap: "apart sample_scanned"
    by blast+
  note pumps = configuration_calls_keep_record[of "[]" sample_config sample_scanned ?B
      sample_world "''drawing.pdf''" "PRef 19" sample_scanned sample_world 4
      "''pumps''" "''P-[0-9]+''" plain_settings]
  note valves = configuration_calls_keep_record[of "[]" sample_config sample_scanned ?B
      sample_world "''drawing.pdf''" "PRef 19" sample_scanned sample_world 4
      "''valves''" "''XV-[0-9]+''" results_as_settings]
  have cfg: "self_config sample_scanned \<notin> record_objects sample_scanned"
    using ap reach.reach_root[of "self_config sample_scanned" "heap sample_scanned"]
    by (auto simp: apart_def config_objects_def)
  have wr: "\<forall>a. written_by_add sample_scanned ''valves'' = Some a \<longrightarrow>
      a \<notin> record_objects sample_scanned"
    using written_in_config[of sample_scanned "''valves''"] ap by (auto simp: apart_def)
  have arg: "holds_no_record_object sample_scanned plain_settings"
    by (simp add: holds_no_record_object_def plain_settings_def)
  from pumps wf ap
  have p1: "record_content 4 (snd (add_custom_pattern sample_scanned ''pumps'' ''P-[0-9]+'')) =
      record_content 4 sample_scanned"
    and p2: "apart (snd (add_custom_pattern sample_scanned ''pumps'' ''P-[0-9]+''))"
    and p3: "record_content 4 (snd (update_config sample_scanned plain_settings)) =
      record_content 4 sample_scanned"
    by blast+
  from pumps wf ap arg
  have p4: "apart (snd (update_config sample_scanned plain_settings))" by blast
  from valves wf wr
  have v1: "record_content 4 (snd (add_custom_pattern sample_scanned ''valves'' ''XV-[0-9]+'')) =
      record_content 4 sample_scanned" by blast
  from valves wf cfg
  have v2: "record_content 4 (snd (update_config sample_scanned results_as_settings)) =
      record_content 4 sample_scanned" by blast
  from r have r': "self_extracted_data sample_scanned = 19" by simp
  from sample_rescan have rs: "record_content 4 rescanned = rescanned_content" by simp
  note sc = sample_scanned_content
  show ?thesis
    unfolding p1[unfolded sc] v1[unfolded sc] v2[unfolded sc] p3[unfolded sc]
    using c wf0 ap0 sample_scan_obj r' wf ap cfg sc p2 arg p4 rs by simp
qed

text \<open>
  The record can change. The caller holds the record \<^verbatim>\<open>r\<close> that the scan returned,
  which is the stored one. After
  \<^verbatim>\<open>update_config({'extraction_settings': r['extraction_results']})\<close> the record is as
  it was, and \<^verbatim>\<open>add_custom_pattern('pumps', 'P-[0-9]+')\<close> then puts the new category
  into the record's \<^verbatim>\<open>extraction_results\<close>. With the valve items of the record as the
  list of patterns of a category \<^verbatim>\<open>valves\<close>,
  \<^verbatim>\<open>add_custom_pattern('valves', 'XV-[0-9]+')\<close> appends the pattern to the items of
  the record. Both calls return.
\<close>

theorem shared_object_changes_record:
  "self_extracted_data sample_scanned = 19 \<and>
   subscript (heap sample_scanned) (PRef 19) ''extraction_results'' = Inr (PRef 18) \<and>
   subscript (heap sample_scanned) (PRef 18) ''valves'' = Inr (PRef 15) \<and>
   subscript (heap sample_scanned) (PRef 15) ''items'' = Inr (PRef 14) \<and>
   record_content 4 sample_scanned = content_of_record sample_record \<and>
   record_content 4 results_shared = content_of_record sample_record \<and>
   add_custom_pattern results_shared ''pumps'' ''P-[0-9]+'' =
     (Inr (), snd (add_custom_pattern results_shared ''pumps'' ''P-[0-9]+'')) \<and>
   record_content 4 (snd (add_custom_pattern results_shared ''pumps'' ''P-[0-9]+'')) =
     pumps_content \<and>
   pumps_content \<noteq> content_of_record sample_record \<and>
   record_content 4 items_shared = content_of_record sample_record \<and>
   add_custom_pattern items_shared ''valves'' ''XV-[0-9]+'' =
     (Inr (), snd (add_custom_pattern items_shared ''valves'' ''XV-[0-9]+'')) \<and>
   record_content 4 (snd (add_custom_pattern items_shared ''valves'' ''XV-[0-9]+'')) =
     valves_content \<and>
   valves_content \<noteq> content_of_record sample_record"
  by code_simp


section \<open>Filtering the stored results\<close>

lemma filter_loop_filter:
  assumes "distinct (map fst results)" and "fst ` set filtered \<inter> fst ` set results = {}"
  shows "filter_loop category min_count results filtered =
     filtered @ filter (\<lambda>(cat, d). (truthy category \<longrightarrow> category = Some cat) \<and> min_count \<le> count d)
       results"
  using assms
proof (induction results arbitrary: filtered)
  case Nil
  then show ?case by simp
next
  case (Cons e results)
  obtain cat d where e: "e = (cat, d)" by (cases e)
  from Cons.prems e have dist: "distinct (map fst results)"
    and fresh: "cat \<notin> fst ` set filtered" and notin: "cat \<notin> fst ` set results"
    and disj: "fst ` set filtered \<inter> fst ` set results = {}"
    by auto
  show ?case
  proof (cases "(truthy category \<longrightarrow> category = Some cat) \<and> min_count \<le> count d")
    case True
    have "fst ` set (AList.update cat d filtered) \<inter> fst ` set results = {}"
      using disj notin by (auto simp: AList.dom_update)
    from Cons.IH[OF dist this] True e fresh show ?thesis
      by (auto simp: update_fresh)
  next
    case False
    from Cons.IH[OF dist disj] False e show ?thesis by auto
  qed
qed

text \<open>
  Claim C5, as the code has it. With no stored record the filter returns the empty
  map. With a stored record (whose keys are distinct, as those of every record a scan
  returns are) it returns, in order, the entries whose count is at least
  \<open>min_count\<close> and, when the category argument is a non-empty name, whose key is that
  name. A category argument that is \<^verbatim>\<open>None\<close> or the empty string restricts nothing.
\<close>

theorem filter_results_entries:
  "(extracted_data s = None \<longrightarrow> filter_results s category min_count = []) \<and>
   (extracted_data s = Some r \<and> distinct (map fst (extraction_results r)) \<longrightarrow>
      filter_results s category min_count =
        filter (\<lambda>(cat, d). (truthy category \<longrightarrow> category = Some cat) \<and> min_count \<le> count d)
          (extraction_results r) \<and>
      (category = Some name \<and> name \<noteq> [] \<longrightarrow>
         filter_results s category min_count =
           entries_matching (extraction_results r) category min_count \<and>
         fst ` set (filter_results s category min_count) \<subseteq> {name}) \<and>
      (category = None \<longrightarrow>
         filter_results s category min_count =
           entries_matching (extraction_results r) category min_count) \<and>
      (\<forall>(cat, d) \<in> set (filter_results s category min_count). min_count \<le> count d)) \<and>
   (scan_pdf B s0 w path = (Inr r, s, w') \<longrightarrow>
      extracted_data s = Some r \<and> distinct (map fst (extraction_results r)))"
proof -
  have none: "extracted_data s = None \<longrightarrow> filter_results s category min_count = []"
    by (simp add: filter_results_def)
  have some: "filter_results s category min_count =
        filter (\<lambda>(cat, d). (truthy category \<longrightarrow> category = Some cat) \<and> min_count \<le> count d)
          (extraction_results r) \<and>
      (category = Some name \<and> name \<noteq> [] \<longrightarrow>
         filter_results s category min_count =
           entries_matching (extraction_results r) category min_count \<and>
         fst ` set (filter_results s category min_count) \<subseteq> {name}) \<and>
      (category = None \<longrightarrow>
         filter_results s category min_count =
           entries_matching (extraction_results r) category min_count) \<and>
      (\<forall>(cat, d) \<in> set (filter_results s category min_count). min_count \<le> count d)"
    if a: "extracted_data s = Some r \<and> distinct (map fst (extraction_results r))"
  proof -
    have eq: "filter_results s category min_count =
        filter (\<lambda>(cat, d). (truthy category \<longrightarrow> category = Some cat) \<and> min_count \<le> count d)
          (extraction_results r)"
      using a filter_loop_filter[of "extraction_results r" "[]" category min_count]
      by (simp add: filter_results_def)
    have bound: "\<forall>(cat, d) \<in> set (filter_results s category min_count). min_count \<le> count d"
      by (auto simp: eq)
    have unnamed: "filter_results s category min_count =
           entries_matching (extraction_results r) category min_count"
      if "category = None"
      unfolding eq using that by (simp add: entries_matching_def truthy_def)
    have named: "filter_results s category min_count =
           entries_matching (extraction_results r) category min_count \<and>
         fst ` set (filter_results s category min_count) \<subseteq> {name}"
      if n: "category = Some name \<and> name \<noteq> []"
    proof -
      have fe: "(\<lambda>(cat, d). (truthy category \<longrightarrow> category = Some cat) \<and> min_count \<le> count d) =
          (\<lambda>(cat, d). cat = name \<and> min_count \<le> count d)"
        using n by (auto simp: truthy_def fun_eq_iff)
      have "filter_results s category min_count =
          filter (\<lambda>(cat, d). cat = name \<and> min_count \<le> count d) (extraction_results r)"
        unfolding eq fe by (rule refl)
      then show ?thesis using n by (auto simp: entries_matching_def)
    qed
    from eq bound unnamed named show ?thesis by blast
  qed
  have scan: "extracted_data s = Some r \<and> distinct (map fst (extraction_results r))"
    if scan: "scan_pdf B s0 w path = (Inr r, s, w')"
  proof -
    from scan_pdf_Inr(4)[OF scan] have 1: "extracted_data s = Some r" by simp
    from scan_pdf_Inr(2)[OF scan] obtain es where
      "scan_loop B (combined_text B (config s0) w path) es [] = Inr (extraction_results r)"
      by blast
    from scan_loop_distinct[OF this] have "distinct (map fst (extraction_results r))" by simp
    with 1 show ?thesis by simp
  qed
  from none some scan show ?thesis by blast
qed

theorem filter_results_entries_witness:
  "extracted_data (init_scanner sample_config) = None \<and>
   filter_results (init_scanner sample_config) (Some ''valves'') 0 = [] \<and>
   scan_pdf (sample_backend (Returns [Returns (Some sample_text)]) Raises)
     (init_scanner sample_config) sample_world ''drawing.pdf'' =
     (Inr sample_record, \<lparr>config = sample_config, extracted_data = Some sample_record\<rparr>,
      sample_world) \<and>
   distinct (map fst (extraction_results sample_record)) \<and>
   filter_results \<lparr>config = sample_config, extracted_data = Some sample_record\<rparr>
     (Some ''valves'') 0 = entries_matching (extraction_results sample_record) (Some ''valves'') 0 \<and>
   fst ` set (filter_results \<lparr>config = sample_config, extracted_data = Some sample_record\<rparr>
     (Some ''valves'') 0) \<subseteq> {''valves''} \<and>
   filter_results \<lparr>config = sample_config, extracted_data = Some sample_record\<rparr> None 1 =
     entries_matching (extraction_results sample_record) None 1 \<and>
   (''valves'', \<lparr>count = 1, items = [''HV-202'']\<rparr>) \<in>
     set (filter_results \<lparr>config = sample_config, extracted_data = Some sample_record\<rparr> None 1)"
proof -
  let ?B = "sample_backend (Returns [Returns (Some sample_text)]) Raises"
  let ?i = "init_scanner sample_config"
  let ?s = "\<lparr>config = sample_config, extracted_data = Some sample_record\<rparr>"
  have n: "extracted_data ?i = None" by (simp add: init_scanner_def)
  have e: "extracted_data ?s = Some sample_record" by simp
  from filter_results_entries[of ?i "Some ''valves''" 0] n
  have 1: "filter_results ?i (Some ''valves'') 0 = []" by blast
  note named = filter_results_entries[of ?s "Some ''valves''" 0 sample_record "''valves''"
      ?B ?i sample_world "''drawing.pdf''" sample_world]
  note unnamed = filter_results_entries[of ?s None 1 sample_record "''valves''"
      ?B ?i sample_world "''drawing.pdf''" sample_world]
  from named sample_scan have d: "distinct (map fst (extraction_results sample_record))"
    by blast
  have ne: "''valves'' \<noteq> []" by simp
  from named e d ne have 2: "filter_results ?s (Some ''valves'') 0 =
      entries_matching (extraction_results sample_record) (Some ''valves'') 0"
    and 3: "fst ` set (filter_results ?s (Some ''valves'') 0) \<subseteq> {''valves''}"
    by blast+
  from unnamed e d have 4: "filter_results ?s None 1 =
      entries_matching (extraction_results sample_record) None 1"
    by blast
  have 5: "(''valves'', \<lparr>count = 1, items = [''HV-202'']\<rparr>) \<in> set (filter_results ?s None 1)"
    unfolding 4 by (simp add: entries_matching_def sample_record_def sample_results_def)
  from n 1 sample_scan d 2 3 4 5 show ?thesis by blast
qed

text \<open>
  The empty string as category name restricts nothing. On the record of the sample
  scan, whose keys are all non-empty, the filter with the name \<^verbatim>\<open>""\<close> and threshold
  0 returns all three entries, where the entries with that name are none.
\<close>

theorem filter_ignores_empty_name:
  "filter_results \<lparr>config = sample_config, extracted_data = Some sample_record\<rparr> (Some []) 0 =
     sample_results \<and>
   entries_matching (extraction_results sample_record) (Some []) 0 = [] \<and>
   fst (snd (scan_pdf (sample_backend (Returns [Returns (Some sample_text)]) Raises)
     (init_scanner sample_config) sample_world ''drawing.pdf'')) =
     \<lparr>config = sample_config, extracted_data = Some sample_record\<rparr>"
  by code_simp

end
